theory Spec2Isabelle
  imports Main "HOL-Library.Product_Lexorder" "HOL-Library.List_Lexorder" "HOL-Library.Char_ord"
begin

section \<open>Minesweeper: cells and sentences\<close>

text \<open>
  A cell is a pair of Python integers. A \<open>Sentence\<close> of \<open>minesweeper.py\<close> holds a set of
  cells and an integer count; Python compares two sentences by these two fields
  (\<open>__eq__\<close>), which is the equality of the record.
\<close>

type_synonym cell = "int \<times> int"

definition in_range :: "int \<Rightarrow> int \<Rightarrow> cell \<Rightarrow> bool" where
  "in_range height width cell \<longleftrightarrow>
     0 \<le> fst cell \<and> fst cell < height \<and> 0 \<le> snd cell \<and> snd cell < width"

record sentence =
  cells :: "cell set"
  count :: int

text \<open>\<open>Sentence(cells, count)\<close>: the constructor copies the cells into a set.\<close>

definition Sentence :: "cell set \<Rightarrow> int \<Rightarrow> sentence" where
  "Sentence cs n = \<lparr>cells = cs, count = n\<rparr>"

text \<open>
  \<open>known_mines\<close> returns the cell set, or falls off the end of the function: Python's
  \<open>None\<close>, here \<open>None\<close>. \<open>len(self.cells)\<close> is \<open>card\<close>.
\<close>

definition known_mines :: "sentence \<Rightarrow> cell set option" where
  "known_mines s =
     (if int (card (cells s)) = count s \<and> count s \<noteq> 0 then Some (cells s) else None)"

definition known_safes :: "sentence \<Rightarrow> cell set" where
  "known_safes s = (if count s = 0 then cells s else {})"

definition Sentence_mark_mine :: "sentence \<Rightarrow> cell \<Rightarrow> sentence" where
  "Sentence_mark_mine s c =
     (if c \<in> cells s then s\<lparr>cells := cells s - {c}, count := count s - 1\<rparr> else s)"

definition Sentence_mark_safe :: "sentence \<Rightarrow> cell \<Rightarrow> sentence" where
  "Sentence_mark_safe s c =
     (if c \<in> cells s then s\<lparr>cells := cells s - {c}\<rparr> else s)"

section \<open>Minesweeper: the knowledge base of the agent\<close>

text \<open>
  The state of a \<open>MinesweeperAI\<close>. The knowledge is a Python list of sentence objects;
  every sentence in it is an object of its own (each is built by a call of
  \<open>Sentence(...)\<close>, which copies the cells), so mutating one never changes another and
  the list of their values is the whole state.
\<close>

record ai =
  height :: int
  width :: int
  moves_made :: "cell set"
  mines :: "cell set"
  safes :: "cell set"
  knowledge :: "sentence list"

definition MinesweeperAI :: "int \<Rightarrow> int \<Rightarrow> ai" where
  "MinesweeperAI h w =
     \<lparr>height = h, width = w, moves_made = {}, mines = {}, safes = {}, knowledge = []\<rparr>"

definition mark_mine :: "ai \<Rightarrow> cell \<Rightarrow> ai" where
  "mark_mine st c =
     st\<lparr>mines := insert c (mines st),
        knowledge := map (\<lambda>s. Sentence_mark_mine s c) (knowledge st)\<rparr>"

definition mark_safe :: "ai \<Rightarrow> cell \<Rightarrow> ai" where
  "mark_safe st c =
     st\<lparr>safes := insert c (safes st),
        knowledge := map (\<lambda>s. Sentence_mark_safe s c) (knowledge st)\<rparr>"

text \<open>
  \<open>infer_new_sentences\<close>: the body of the two nested loops for one pair of sentences,
  with the list \<open>new_knowledge\<close> as accumulator. \<open>!=\<close> and \<open>in\<close> compare sentences by
  \<open>__eq__\<close>.
\<close>

definition infer_pair ::
  "sentence list \<Rightarrow> sentence \<Rightarrow> sentence \<Rightarrow> sentence list \<Rightarrow> sentence list" where
  "infer_pair K sentence1 sentence2 new_knowledge =
     (if sentence1 \<noteq> sentence2 \<and> cells sentence1 \<subseteq> cells sentence2 then
        (let new_sentence =
               Sentence (cells sentence2 - cells sentence1) (count sentence2 - count sentence1)
         in if new_sentence \<notin> set K \<and> new_sentence \<notin> set new_knowledge
            then new_knowledge @ [new_sentence] else new_knowledge)
      else new_knowledge)"

definition inferred :: "sentence list \<Rightarrow> sentence list" where
  "inferred K = fold (\<lambda>sentence1. fold (infer_pair K sentence1) K) K []"

definition infer_new_sentences :: "ai \<Rightarrow> ai" where
  "infer_new_sentences st = st\<lparr>knowledge := knowledge st @ inferred (knowledge st)\<rparr>"

text \<open>
  The eight neighbours of a cell, in the order of the loops over \<open>di\<close> and \<open>dj\<close> (the
  pair \<open>(0, 0)\<close> is skipped by \<open>continue\<close>).
\<close>

definition neighbours :: "cell \<Rightarrow> cell list" where
  "neighbours cell =
     map (\<lambda>(di, dj). (fst cell + di, snd cell + dj))
       (filter (\<lambda>d. d \<noteq> (0, 0)) (List.product [-1, 0, 1] [-1, 0, 1]))"

text \<open>One round of the scan of the neighbours in \<open>add_knowledge\<close>.\<close>

definition scan_neighbor :: "ai \<Rightarrow> cell \<Rightarrow> int \<times> cell list \<Rightarrow> int \<times> cell list" where
  "scan_neighbor st neighbor acc =
     (let count_mines = (if neighbor \<in> mines st then fst acc + 1 else fst acc);
          undtermined_moves =
            (if in_range (height st) (width st) neighbor
                \<and> neighbor \<notin> safes st \<and> neighbor \<notin> mines st
             then snd acc @ [neighbor] else snd acc)
      in (count_mines, undtermined_moves))"

text \<open>
  The first part of \<open>add_knowledge\<close>, up to the \<open>append\<close> of the new sentence.
\<close>

definition add_knowledge_new_sentence :: "ai \<Rightarrow> cell \<Rightarrow> int \<Rightarrow> ai" where
  "add_knowledge_new_sentence st cell n =
     (let st1 = mark_safe (st\<lparr>moves_made := insert cell (moves_made st)\<rparr>) cell;
          acc = fold (scan_neighbor st1) (neighbours cell) (0, [])
      in st1\<lparr>knowledge := knowledge st1 @ [Sentence (set (snd acc)) (n - fst acc)]\<rparr>)"

text \<open>
  The loops \<open>for cell in sentence.known_mines().copy(): self.mark_mine(cell)\<close> and its
  twin for the safe cells run over a copy of a set. Python fixes no order for that; the
  model takes the cells in ascending order, and \<open>mark_mines_any_order\<close> and
  \<open>mark_safes_any_order\<close> below show that every other order gives the same state.
\<close>

definition mark_mines :: "cell set \<Rightarrow> ai \<Rightarrow> ai" where
  "mark_mines cs st = fold (\<lambda>c st'. mark_mine st' c) (sorted_list_of_set cs) st"

definition mark_safes :: "cell set \<Rightarrow> ai \<Rightarrow> ai" where
  "mark_safes cs st = fold (\<lambda>c st'. mark_safe st' c) (sorted_list_of_set cs) st"

text \<open>
  The body of the loop \<open>for sentence in self.knowledge\<close> of \<open>add_knowledge\<close> for the
  sentence at index \<open>i\<close>: its two \<open>if\<close> statements, one after the other. The sentence
  is read from the current state, since the marks made so far have changed it in place.
  A set is true in a Python \<open>if\<close> when it is not empty, \<open>None\<close> is false.
\<close>

definition update_mines :: "nat \<Rightarrow> ai \<Rightarrow> ai" where
  "update_mines i st =
     (case known_mines (knowledge st ! i) of
        None \<Rightarrow> st
      | Some cs \<Rightarrow> if cs \<noteq> {} then mark_mines cs st else st)"

definition update_safes :: "nat \<Rightarrow> ai \<Rightarrow> ai" where
  "update_safes i st =
     (let cs = known_safes (knowledge st ! i)
      in if cs \<noteq> {} then mark_safes cs st else st)"

definition update_sentence :: "nat \<Rightarrow> ai \<Rightarrow> ai" where
  "update_sentence i st = update_safes i (update_mines i st)"

text \<open>
  The loop itself. No round changes the length of the list (\<open>length_update_knowledge\<close>),
  so the loop visits the indices below the length at its start.
\<close>

definition update_knowledge :: "ai \<Rightarrow> ai" where
  "update_knowledge st = fold update_sentence [0..<length (knowledge st)] st"

definition add_knowledge :: "ai \<Rightarrow> cell \<Rightarrow> int \<Rightarrow> ai" where
  "add_knowledge st cell n =
     infer_new_sentences (update_knowledge (add_knowledge_new_sentence st cell n))"

text \<open>
  The sentence that \<open>infer_new_sentences\<close> builds from a pair, and the set of all
  sentences that a knowledge base yields in this way.
\<close>

definition derived :: "sentence \<Rightarrow> sentence \<Rightarrow> sentence" where
  "derived A B = Sentence (cells B - cells A) (count B - count A)"

definition derivable :: "sentence list \<Rightarrow> sentence set" where
  "derivable K =
     {derived A B | A B. A \<in> set K \<and> B \<in> set K \<and> A \<noteq> B \<and> cells A \<subseteq> cells B}"


section \<open>Minesweeper: the board\<close>

text \<open>
  The board of class \<open>Minesweeper\<close>: \<open>board[i][j]\<close> tells whether the cell hides a
  mine. Both methods raise the exception \<open>out of range!\<close> for a cell outside the board.
  The fields \<open>mines\<close> and \<open>mines_found\<close> of the class are read by neither method.
\<close>

datatype board_error = OutOfRange

record minesweeper =
  board_height :: int
  board_width :: int
  board :: "bool list list"

definition is_mine :: "minesweeper \<Rightarrow> cell \<Rightarrow> board_error + bool" where
  "is_mine b cell =
     (if \<not> in_range (board_height b) (board_width b) cell then Inl OutOfRange
      else Inr (board b ! nat (fst cell) ! nat (snd cell)))"

definition nearby_mines :: "minesweeper \<Rightarrow> cell \<Rightarrow> board_error + int" where
  "nearby_mines b cell =
     (if \<not> in_range (board_height b) (board_width b) cell then Inl OutOfRange
      else Inr (fold (\<lambda>n m. if in_range (board_height b) (board_width b) n
                                 \<and> board b ! nat (fst n) ! nat (snd n)
                              then m + 1 else m)
                  (neighbours cell) 0))"

definition mine_cells :: "minesweeper \<Rightarrow> cell set" where
  "mine_cells b = {c. is_mine b c = Inr True}"


section \<open>Minesweeper: a game of the agent against a board\<close>

text \<open>
  A knowledge base is sound for a set \<open>M\<close> of mined cells when the cells it has marked
  as mines are in \<open>M\<close>, the cells it has marked as safe are not, and every sentence
  counts the members of \<open>M\<close> among its (finitely many) cells.
\<close>

definition sound :: "cell set \<Rightarrow> ai \<Rightarrow> bool" where
  "sound M st \<longleftrightarrow>
     mines st \<subseteq> M \<and> safes st \<inter> M = {}
     \<and> (\<forall>s \<in> set (knowledge st). finite (cells s) \<and> count s = int (card (cells s \<inter> M)))"


text \<open>
  The calls a driver makes in a game on board \<open>b\<close>: \<open>add_knowledge\<close> for a revealed
  cell of the board that hides no mine, with the count that \<open>nearby_mines\<close> returns for
  it; and \<open>mark_mine\<close> or \<open>mark_safe\<close> for a cell of the board that does or does not hide
  a mine. The three parts of \<open>add_knowledge\<close> and the rounds of its loop are steps of
  their own, so that the states between them are reachable states too.
  \<open>make_safe_move\<close> and \<open>make_random_move\<close> only read the state.
\<close>

inductive game_step :: "minesweeper \<Rightarrow> ai \<Rightarrow> ai \<Rightarrow> bool" for b :: minesweeper where
  reveal: "is_mine b cell = Inr False \<Longrightarrow> nearby_mines b cell = Inr n \<Longrightarrow>
     game_step b st (add_knowledge st cell n)"
| reveal_new_sentence: "is_mine b cell = Inr False \<Longrightarrow> nearby_mines b cell = Inr n \<Longrightarrow>
     game_step b st (add_knowledge_new_sentence st cell n)"
| reveal_update_sentence: "i < length (knowledge st) \<Longrightarrow> game_step b st (update_sentence i st)"
| reveal_update: "game_step b st (update_knowledge st)"
| reveal_infer: "game_step b st (infer_new_sentences st)"
| flag_mine: "is_mine b c = Inr True \<Longrightarrow> game_step b st (mark_mine st c)"
| flag_safe: "is_mine b c = Inr False \<Longrightarrow> game_step b st (mark_safe st c)"

text \<open>
  The game starts with a fresh agent \<open>MinesweeperAI(h, w)\<close> whose height and width take
  in every mined cell of the board, as they do when they are the height and width of
  the board. (The agent looks for undetermined cells only inside its own height and
  width, while \<open>nearby_mines\<close> counts the mines of the board.)
\<close>

inductive reachable :: "minesweeper \<Rightarrow> ai \<Rightarrow> bool" for b :: minesweeper where
  start: "mine_cells b \<subseteq> {c. in_range h w c} \<Longrightarrow> reachable b (MinesweeperAI h w)"
| step: "reachable b st \<Longrightarrow> game_step b st st' \<Longrightarrow> reachable b st'"

definition consistent :: "minesweeper \<Rightarrow> ai \<Rightarrow> bool" where
  "consistent b st \<longleftrightarrow>
     mine_cells b \<subseteq> {c. in_range (height st) (width st) c} \<and> sound (mine_cells b) st"

section \<open>Minesweeper: calls that respect the two sets\<close>

text \<open>
  Calls of the three operations that put a cell into \<open>mines\<close> or \<open>safes\<close>, for a cell
  that the other set does not hold: \<open>add_knowledge\<close> (which marks its cell safe) for a
  cell that is not in \<open>mines\<close>, with any count; \<open>mark_mine\<close> for a cell that is not in
  \<open>safes\<close>; \<open>mark_safe\<close> for a cell that is not in \<open>mines\<close>. The parts of
  \<open>add_knowledge\<close> are steps of their own again, and \<open>call_steps\<close> is any number of
  steps, one after the other.
\<close>

inductive call_step :: "ai \<Rightarrow> ai \<Rightarrow> bool" where
  call_add_knowledge: "cell \<notin> mines st \<Longrightarrow> call_step st (add_knowledge st cell n)"
| part_new_sentence: "cell \<notin> mines st \<Longrightarrow> call_step st (add_knowledge_new_sentence st cell n)"
| part_update_sentence: "i < length (knowledge st) \<Longrightarrow> call_step st (update_sentence i st)"
| part_update: "call_step st (update_knowledge st)"
| part_infer: "call_step st (infer_new_sentences st)"
| call_mark_mine: "c \<notin> safes st \<Longrightarrow> call_step st (mark_mine st c)"
| call_mark_safe: "c \<notin> mines st \<Longrightarrow> call_step st (mark_safe st c)"

inductive call_steps :: "ai \<Rightarrow> ai \<Rightarrow> bool" where
  no_call: "call_steps st st"
| more_calls: "call_steps st st' \<Longrightarrow> call_step st' st'' \<Longrightarrow> call_steps st st''"

text \<open>
  The two sets are disjoint, and no sentence holds a cell of either.
\<close>

definition separated :: "ai \<Rightarrow> bool" where
  "separated st \<longleftrightarrow>
     mines st \<inter> safes st = {}
     \<and> (\<forall>s \<in> set (knowledge st). cells s \<inter> (mines st \<union> safes st) = {})"

section \<open>Minesweeper: the choice of a move\<close>

text \<open>
  \<open>make_safe_move\<close> returns the first cell of the loop \<open>for cell in self.safes\<close> that has
  not been played. Python fixes no order for this loop over a set; the order is the
  parameter \<open>order\<close>, a list of the cells of \<open>safes\<close>.
\<close>

definition make_safe_move :: "cell list \<Rightarrow> ai \<Rightarrow> cell option" where
  "make_safe_move order st = find (\<lambda>cell. cell \<notin> moves_made st) order"

text \<open>
  \<open>make_random_move\<close>: the list \<open>moves\<close> of the two loops over \<open>range(self.height)\<close> and
  \<open>range(self.width)\<close>, and \<open>random.choice\<close>, which returns the element at an index
  below the length of the list; the parameter \<open>r\<close> is the number the generator draws.
\<close>

definition random_moves :: "ai \<Rightarrow> cell list" where
  "random_moves st =
     filter (\<lambda>c. c \<notin> moves_made st \<and> c \<notin> mines st)
       (List.product [0..height st - 1] [0..width st - 1])"

definition make_random_move :: "nat \<Rightarrow> ai \<Rightarrow> cell option" where
  "make_random_move r st =
     (let moves = random_moves st
      in if length moves \<noteq> 0 then Some (moves ! (r mod length moves)) else None)"

text \<open>
  No sentence of the knowledge base holds a cell that has been added to \<open>mines\<close> or to
  \<open>safes\<close> since these sets were \<open>m0\<close> and \<open>s0\<close>.
\<close>

definition untouched :: "cell set \<Rightarrow> cell set \<Rightarrow> ai \<Rightarrow> bool" where
  "untouched m0 s0 st \<longleftrightarrow>
     (\<forall>s \<in> set (knowledge st). cells s \<inter> (mines st - m0) = {} \<and> cells s \<inter> (safes st - s0) = {})"

section \<open>Propositional logic: sentences and model checking\<close>

text \<open>
  The sentences of \<open>logic.py\<close>. The class \<open>Sentence\<close> can be instantiated, and
  \<open>Sentence.validate\<close> accepts such an instance as an operand: it is \<open>Sentence_base\<close>
  here. The other constructors are the subclasses (\<open>Not\<close> is \<open>Not_sentence\<close>). \<open>And\<close>
  and \<open>Or\<close> hold a Python list of operands, which may be empty: \<open>And()\<close> is accepted by
  the constructor, and \<open>add\<close> appends to it. The exceptions that the functions below
  can raise are the one of \<open>Sentence.evaluate\<close> (\<open>nothing to evaluate\<close>), the one of
  \<open>Symbol.evaluate\<close> for a symbol without a value in the model, and the \<open>TypeError\<close> of
  \<open>set.union\<close> called without an argument.
\<close>

datatype logic_sentence =
    Sentence_base
  | Symbol string
  | Not_sentence logic_sentence
  | And "logic_sentence list"
  | Or "logic_sentence list"
  | Implication logic_sentence logic_sentence
  | Biconditional logic_sentence logic_sentence

datatype logic_error = NothingToEvaluate | NotInModel string | TypeError

type_synonym model = "string \<rightharpoonup> bool"

text \<open>
  \<open>evaluate\<close>. \<open>all\<close> and \<open>any\<close> run over a generator and stop at the first operand that
  decides the result; \<open>or\<close> and \<open>and\<close> evaluate their right operand only when the left
  one does not decide. In \<open>Biconditional\<close> the left side is evaluated first, and the
  right side once in either case.
\<close>

fun evaluate :: "model \<Rightarrow> logic_sentence \<Rightarrow> logic_error + bool"
  and evaluate_all :: "model \<Rightarrow> logic_sentence list \<Rightarrow> logic_error + bool"
  and evaluate_any :: "model \<Rightarrow> logic_sentence list \<Rightarrow> logic_error + bool" where
  "evaluate m Sentence_base = Inl NothingToEvaluate"
| "evaluate m (Symbol name) =
     (case m name of None \<Rightarrow> Inl (NotInModel name) | Some v \<Rightarrow> Inr v)"
| "evaluate m (Not_sentence operand) =
     (case evaluate m operand of Inl e \<Rightarrow> Inl e | Inr v \<Rightarrow> Inr (\<not> v))"
| "evaluate m (And conjuncts) = evaluate_all m conjuncts"
| "evaluate m (Or disjuncts) = evaluate_any m disjuncts"
| "evaluate m (Implication antecedent consequent) =
     (case evaluate m antecedent of
        Inl e \<Rightarrow> Inl e
      | Inr a \<Rightarrow> if \<not> a then Inr True else evaluate m consequent)"
| "evaluate m (Biconditional left right) =
     (case evaluate m left of
        Inl e \<Rightarrow> Inl e
      | Inr l \<Rightarrow>
          if l then
            (case evaluate m right of
               Inl e \<Rightarrow> Inl e
             | Inr r \<Rightarrow> if r then Inr True else Inr False)
          else
            (case evaluate m right of Inl e \<Rightarrow> Inl e | Inr r \<Rightarrow> Inr (\<not> r)))"
| "evaluate_all m [] = Inr True"
| "evaluate_all m (c # cs) =
     (case evaluate m c of
        Inl e \<Rightarrow> Inl e
      | Inr v \<Rightarrow> if v then evaluate_all m cs else Inr False)"
| "evaluate_any m [] = Inr False"
| "evaluate_any m (d # ds) =
     (case evaluate m d of
        Inl e \<Rightarrow> Inl e
      | Inr v \<Rightarrow> if v then Inr True else evaluate_any m ds)"

text \<open>
  \<open>set.union(*args)\<close>: the union of its arguments; without an argument it raises
  \<open>TypeError\<close>.
\<close>

definition set_union :: "string set list \<Rightarrow> logic_error + string set" where
  "set_union args = (case args of [] \<Rightarrow> Inl TypeError | s # ss \<Rightarrow> Inr (s \<union> \<Union> (set ss)))"

text \<open>
  \<open>symbols\<close>; the one of the base class returns the empty set. For \<open>And\<close> and \<open>Or\<close> the
  list comprehension collects the symbols of every operand before \<open>set.union\<close> is
  called.
\<close>

fun symbols :: "logic_sentence \<Rightarrow> logic_error + string set"
  and symbols_list :: "logic_sentence list \<Rightarrow> logic_error + string set list" where
  "symbols Sentence_base = Inr {}"
| "symbols (Symbol name) = Inr {name}"
| "symbols (Not_sentence operand) = symbols operand"
| "symbols (And conjuncts) =
     (case symbols_list conjuncts of Inl e \<Rightarrow> Inl e | Inr ss \<Rightarrow> set_union ss)"
| "symbols (Or disjuncts) =
     (case symbols_list disjuncts of Inl e \<Rightarrow> Inl e | Inr ss \<Rightarrow> set_union ss)"
| "symbols (Implication antecedent consequent) =
     (case symbols antecedent of
        Inl e \<Rightarrow> Inl e
      | Inr a \<Rightarrow> (case symbols consequent of Inl e \<Rightarrow> Inl e | Inr c \<Rightarrow> set_union [a, c]))"
| "symbols (Biconditional left right) =
     (case symbols left of
        Inl e \<Rightarrow> Inl e
      | Inr l \<Rightarrow> (case symbols right of Inl e \<Rightarrow> Inl e | Inr r \<Rightarrow> set_union [l, r]))"
| "symbols_list [] = Inr []"
| "symbols_list (c # cs) =
     (case symbols c of
        Inl e \<Rightarrow> Inl e
      | Inr s \<Rightarrow> (case symbols_list cs of Inl e \<Rightarrow> Inl e | Inr ss \<Rightarrow> Inr (s # ss)))"

text \<open>
  \<open>check_all\<close>, with \<open>kb\<close> for the parameter \<open>knowledge\<close> of the source. The set
  \<open>symbols\<close> of the source is the list of its elements in the order in which \<open>pop\<close>
  takes them; \<open>model_check\<close> below takes them in ascending order, and
  \<open>check_all_any_order\<close> shows that the order does not change the result.
\<close>

fun check_all ::
  "logic_sentence \<Rightarrow> logic_sentence \<Rightarrow> string list \<Rightarrow> model \<Rightarrow> logic_error + bool" where
  "check_all kb query [] m =
     (case evaluate m kb of
        Inl e \<Rightarrow> Inl e
      | Inr k \<Rightarrow> if k then evaluate m query else Inr True)"
| "check_all kb query (p # remaining) m =
     (case check_all kb query remaining (m(p \<mapsto> True)) of
        Inl e \<Rightarrow> Inl e
      | Inr t \<Rightarrow> if t then check_all kb query remaining (m(p \<mapsto> False)) else Inr False)"

definition model_check :: "logic_sentence \<Rightarrow> logic_sentence \<Rightarrow> logic_error + bool" where
  "model_check kb query =
     (case symbols kb of
        Inl e \<Rightarrow> Inl e
      | Inr ks \<Rightarrow>
          (case symbols query of
             Inl e \<Rightarrow> Inl e
           | Inr qs \<Rightarrow>
               (case set_union [ks, qs] of
                  Inl e \<Rightarrow> Inl e
                | Inr syms \<Rightarrow> check_all kb query (sorted_list_of_set syms) Map.empty)))"

text \<open>
  A sentence is proper when it holds no instance of the base class and every \<open>And\<close> and
  \<open>Or\<close> in it has at least one operand (as their docstrings ask).
\<close>

fun proper :: "logic_sentence \<Rightarrow> bool" where
  "proper Sentence_base = False"
| "proper (Symbol name) = True"
| "proper (Not_sentence operand) = proper operand"
| "proper (And conjuncts) = (conjuncts \<noteq> [] \<and> (\<forall>c \<in> set conjuncts. proper c))"
| "proper (Or disjuncts) = (disjuncts \<noteq> [] \<and> (\<forall>d \<in> set disjuncts. proper d))"
| "proper (Implication antecedent consequent) = (proper antecedent \<and> proper consequent)"
| "proper (Biconditional left right) = (proper left \<and> proper right)"

text \<open>
  A model \<open>m'\<close> extends \<open>m\<close> by values for the symbols in \<open>X\<close>; and the query holds in
  every such extension in which the knowledge holds.
\<close>

definition extends :: "model \<Rightarrow> string set \<Rightarrow> model \<Rightarrow> bool" where
  "extends m X m' \<longleftrightarrow> dom m' = dom m \<union> X \<and> (\<forall>x \<in> dom m. m' x = m x)"

definition entails_from ::
  "logic_sentence \<Rightarrow> logic_sentence \<Rightarrow> model \<Rightarrow> string set \<Rightarrow> bool" where
  "entails_from kb query m X \<longleftrightarrow>
     (\<forall>m'. extends m X m' \<longrightarrow> evaluate m' kb = Inr True \<longrightarrow> evaluate m' query = Inr True)"

section \<open>Results about single sentences\<close>

text \<open>
  C5. \<open>known_mines\<close> returns exactly the cells of the sentence when their number equals
  the count and the count is positive, and Python's \<open>None\<close> otherwise; \<open>known_safes\<close>
  returns exactly the cells when the count is zero, and the empty set otherwise.
\<close>

theorem known_mines_known_safes_spec:
  "known_mines C =
     (if int (card (cells C)) = count C \<and> 0 < count C then Some (cells C) else None)
   \<and> known_safes C = (if count C = 0 then cells C else {})"
  by (auto simp: known_mines_def known_safes_def)

text \<open>
  C7. Marking a member cell of a sentence as a mine removes the cell and lowers the count
  by exactly one; marking a cell that is not a member changes neither field.
\<close>

theorem Sentence_mark_mine_spec:
  "(c \<in> cells C \<longrightarrow>
      c \<notin> cells (Sentence_mark_mine C c)
      \<and> cells (Sentence_mark_mine C c) = cells C - {c}
      \<and> count (Sentence_mark_mine C c) = count C - 1)
   \<and> (c \<notin> cells C \<longrightarrow> Sentence_mark_mine C c = C)"
  by (simp add: Sentence_mark_mine_def)

theorem Sentence_mark_mine_spec_witness:
  "(1, 2) \<in> cells \<lparr>cells = {(1, 2), (3, 4)}, count = 1\<rparr>
   \<and> (5, 6) \<notin> cells \<lparr>cells = {(1, 2), (3, 4)}, count = 1\<rparr>
   \<and> cells (Sentence_mark_mine \<lparr>cells = {(1, 2), (3, 4)}, count = 1\<rparr> (1, 2)) = {(3, 4)}
   \<and> count (Sentence_mark_mine \<lparr>cells = {(1, 2), (3, 4)}, count = 1\<rparr> (1, 2)) = 0
   \<and> Sentence_mark_mine \<lparr>cells = {(1, 2), (3, 4)}, count = 1\<rparr> (5, 6)
       = \<lparr>cells = {(1, 2), (3, 4)}, count = 1\<rparr>"
  using Sentence_mark_mine_spec [of "(1, 2)" "\<lparr>cells = {(1, 2), (3, 4)}, count = 1\<rparr>"]
    Sentence_mark_mine_spec [of "(5, 6)" "\<lparr>cells = {(1, 2), (3, 4)}, count = 1\<rparr>"]
  by auto

section \<open>Neighbours and the marking loops\<close>

lemma neighbours_unfold:
  "neighbours cell =
     [(fst cell - 1, snd cell - 1), (fst cell - 1, snd cell), (fst cell - 1, snd cell + 1),
      (fst cell, snd cell - 1), (fst cell, snd cell + 1),
      (fst cell + 1, snd cell - 1), (fst cell + 1, snd cell), (fst cell + 1, snd cell + 1)]"
  by (simp add: neighbours_def)

lemma distinct_neighbours: "distinct (neighbours cell)"
  by (simp add: neighbours_unfold)

lemma cells_Sentence_mark_mine: "cells (Sentence_mark_mine s c) = cells s - {c}"
  by (simp add: Sentence_mark_mine_def)

lemma cells_Sentence_mark_safe: "cells (Sentence_mark_safe s c) = cells s - {c}"
  by (simp add: Sentence_mark_safe_def)

lemma count_Sentence_mark_safe: "count (Sentence_mark_safe s c) = count s"
  by (simp add: Sentence_mark_safe_def)

lemma count_Sentence_mark_mine:
  "count (Sentence_mark_mine s c) = (if c \<in> cells s then count s - 1 else count s)"
  by (simp add: Sentence_mark_mine_def)

lemma mark_mine_fields:
  "mines (mark_mine st c) = insert c (mines st)"
  "safes (mark_mine st c) = safes st"
  "moves_made (mark_mine st c) = moves_made st"
  "height (mark_mine st c) = height st"
  "width (mark_mine st c) = width st"
  "knowledge (mark_mine st c) = map (\<lambda>s. Sentence_mark_mine s c) (knowledge st)"
  by (simp_all add: mark_mine_def)

lemma mark_safe_fields:
  "mines (mark_safe st c) = mines st"
  "safes (mark_safe st c) = insert c (safes st)"
  "moves_made (mark_safe st c) = moves_made st"
  "height (mark_safe st c) = height st"
  "width (mark_safe st c) = width st"
  "knowledge (mark_safe st c) = map (\<lambda>s. Sentence_mark_safe s c) (knowledge st)"
  by (simp_all add: mark_safe_def)

text \<open>The marking loops in closed form.\<close>

lemma fold_Sentence_mark_mine:
  "distinct xs \<Longrightarrow>
   fold (\<lambda>c s. Sentence_mark_mine s c) xs s =
     s\<lparr>cells := cells s - set xs, count := count s - int (card (cells s \<inter> set xs))\<rparr>"
proof (induction xs arbitrary: s)
  case Nil
  then show ?case by simp
next
  case (Cons x xs)
  have fin: "finite (cells s \<inter> set xs)" by simp
  show ?case
  proof (cases "x \<in> cells s")
    case True
    have a: "(cells s - {x}) \<inter> set xs = cells s \<inter> set xs" using Cons.prems by auto
    have b: "cells s \<inter> insert x (set xs) = insert x (cells s \<inter> set xs)" using True by auto
    have c: "x \<notin> cells s \<inter> set xs" using Cons.prems by auto
    have d: "cells s - {x} - set xs = cells s - insert x (set xs)" by auto
    show ?thesis using Cons True
      by (simp add: Sentence_mark_mine_def a b c d)
  next
    case False
    have b: "cells s \<inter> insert x (set xs) = cells s \<inter> set xs" using False by auto
    have d: "cells s - insert x (set xs) = cells s - set xs" using False by auto
    show ?thesis using Cons False
      by (simp add: Sentence_mark_mine_def b d)
  qed
qed

lemma fold_Sentence_mark_safe:
  "fold (\<lambda>c s. Sentence_mark_safe s c) xs s = s\<lparr>cells := cells s - set xs\<rparr>"
proof (induction xs arbitrary: s)
  case Nil
  then show ?case by simp
next
  case (Cons x xs)
  have d: "cells s - {x} - set xs = cells s - insert x (set xs)" by auto
  have e: "x \<notin> cells s \<Longrightarrow> cells s - insert x (set xs) = cells s - set xs" by auto
  show ?case using Cons by (auto simp: Sentence_mark_safe_def d e)
qed

lemma fold_mark_mine:
  "fold (\<lambda>c st'. mark_mine st' c) xs st =
     st\<lparr>mines := mines st \<union> set xs,
        knowledge := map (fold (\<lambda>c s. Sentence_mark_mine s c) xs) (knowledge st)\<rparr>"
proof (induction xs arbitrary: st)
  case Nil
  then show ?case by simp
next
  case (Cons x xs)
  then show ?case by (simp add: mark_mine_def comp_def)
qed

lemma fold_mark_safe:
  "fold (\<lambda>c st'. mark_safe st' c) xs st =
     st\<lparr>safes := safes st \<union> set xs,
        knowledge := map (fold (\<lambda>c s. Sentence_mark_safe s c) xs) (knowledge st)\<rparr>"
proof (induction xs arbitrary: st)
  case Nil
  then show ?case by simp
next
  case (Cons x xs)
  then show ?case by (simp add: mark_safe_def comp_def)
qed

lemma mark_mines_any_order:
  assumes "finite cs" "distinct xs" "set xs = cs"
  shows "fold (\<lambda>c st'. mark_mine st' c) xs st = mark_mines cs st"
  using assms by (simp add: mark_mines_def fold_mark_mine fold_Sentence_mark_mine)

lemma mark_safes_any_order:
  assumes "finite cs" "set xs = cs"
  shows "fold (\<lambda>c st'. mark_safe st' c) xs st = mark_safes cs st"
  using assms by (simp add: mark_safes_def fold_mark_safe fold_Sentence_mark_safe)

lemma mark_mines_closed:
  "finite cs \<Longrightarrow> mark_mines cs st =
     st\<lparr>mines := mines st \<union> cs,
        knowledge := map (\<lambda>s. s\<lparr>cells := cells s - cs,
                                 count := count s - int (card (cells s \<inter> cs))\<rparr>) (knowledge st)\<rparr>"
  by (simp add: mark_mines_def fold_mark_mine fold_Sentence_mark_mine)

lemma mark_safes_closed:
  "finite cs \<Longrightarrow> mark_safes cs st =
     st\<lparr>safes := safes st \<union> cs,
        knowledge := map (\<lambda>s. s\<lparr>cells := cells s - cs\<rparr>) (knowledge st)\<rparr>"
  by (simp add: mark_safes_def fold_mark_safe fold_Sentence_mark_safe)

lemma fold_count_filter:
  "fold (\<lambda>n m. if P n then m + 1 else m) xs (k::int) = k + int (length (filter P xs))"
  by (induction xs arbitrary: k) auto

lemma length_filter_card:
  "distinct xs \<Longrightarrow> length (filter P xs) = card {x \<in> set xs. P x}"
  by (metis distinct_filter distinct_card set_filter)

lemma nearby_mines_card:
  assumes "nearby_mines b cell = Inr n"
  shows "n = int (card (set (neighbours cell) \<inter> mine_cells b))"
proof -
  have eq: "{x \<in> set (neighbours cell). in_range (board_height b) (board_width b) x
                \<and> board b ! nat (fst x) ! nat (snd x)} = set (neighbours cell) \<inter> mine_cells b"
    by (auto simp: mine_cells_def is_mine_def)
  from assms show ?thesis
    by (simp add: nearby_mines_def fold_count_filter length_filter_card distinct_neighbours eq
        split: if_splits)
qed

lemma sound_mark_mine: "sound M st \<Longrightarrow> c \<in> M \<Longrightarrow> sound M (mark_mine st c)"
  unfolding sound_def mark_mine_fields
proof (intro conjI ballI)
  fix s assume a: "mines st \<subseteq> M \<and> safes st \<inter> M = {} \<and>
     (\<forall>s\<in>set (knowledge st). finite (cells s) \<and> count s = int (card (cells s \<inter> M)))"
    and c: "c \<in> M" and s: "s \<in> set (map (\<lambda>s. Sentence_mark_mine s c) (knowledge st))"
  then obtain t where t: "t \<in> set (knowledge st)" "s = Sentence_mark_mine t c" by auto
  with a have ft: "finite (cells t)" and ct: "count t = int (card (cells t \<inter> M))" by auto
  show "finite (cells s)" using t ft by (simp add: cells_Sentence_mark_mine)
  show "count s = int (card (cells s \<inter> M))"
  proof (cases "c \<in> cells t")
    case True
    have "(cells t - {c}) \<inter> M = cells t \<inter> M - {c}" by auto
    moreover have "c \<in> cells t \<inter> M" using True c by simp
    moreover have "finite (cells t \<inter> M)" using ft by simp
    ultimately have "card ((cells t - {c}) \<inter> M) = card (cells t \<inter> M) - 1" by simp
    moreover have "card (cells t \<inter> M) > 0" using \<open>c \<in> cells t \<inter> M\<close> \<open>finite (cells t \<inter> M)\<close>
      by (auto simp: card_gt_0_iff)
    ultimately show ?thesis using t ct True
      by (simp add: cells_Sentence_mark_mine count_Sentence_mark_mine)
  next
    case False
    then show ?thesis using t ct by (simp add: Sentence_mark_mine_def)
  qed
qed auto

lemma sound_mark_safe: "sound M st \<Longrightarrow> c \<notin> M \<Longrightarrow> sound M (mark_safe st c)"
  unfolding sound_def mark_safe_fields
proof (intro conjI ballI)
  fix s assume a: "mines st \<subseteq> M \<and> safes st \<inter> M = {} \<and>
     (\<forall>s\<in>set (knowledge st). finite (cells s) \<and> count s = int (card (cells s \<inter> M)))"
    and c: "c \<notin> M" and s: "s \<in> set (map (\<lambda>s. Sentence_mark_safe s c) (knowledge st))"
  then obtain t where t: "t \<in> set (knowledge st)" "s = Sentence_mark_safe t c" by auto
  with a have ft: "finite (cells t)" and ct: "count t = int (card (cells t \<inter> M))" by auto
  show "finite (cells s)" using t ft by (simp add: cells_Sentence_mark_safe)
  have "(cells t - {c}) \<inter> M = cells t \<inter> M" using c by auto
  then show "count s = int (card (cells s \<inter> M))" using t ct
    by (simp add: cells_Sentence_mark_safe count_Sentence_mark_safe)
qed auto

lemma sound_fold_mark_mine:
  "sound M st \<Longrightarrow> set xs \<subseteq> M \<Longrightarrow> sound M (fold (\<lambda>c st'. mark_mine st' c) xs st)"
  by (induction xs arbitrary: st) (auto intro: sound_mark_mine)

lemma sound_fold_mark_safe:
  "sound M st \<Longrightarrow> set xs \<inter> M = {} \<Longrightarrow> sound M (fold (\<lambda>c st'. mark_safe st' c) xs st)"
  by (induction xs arbitrary: st) (auto intro: sound_mark_safe)

lemma set_sorted_list_of_set_subset: "set (sorted_list_of_set A) \<subseteq> A"
  by (cases "finite A") auto

lemma sound_mark_mines: "sound M st \<Longrightarrow> cs \<subseteq> M \<Longrightarrow> sound M (mark_mines cs st)"
  unfolding mark_mines_def using set_sorted_list_of_set_subset [of cs]
  by (intro sound_fold_mark_mine) auto

lemma sound_mark_safes: "sound M st \<Longrightarrow> cs \<inter> M = {} \<Longrightarrow> sound M (mark_safes cs st)"
  unfolding mark_safes_def using set_sorted_list_of_set_subset [of cs]
  by (intro sound_fold_mark_safe) auto

lemma length_mark_mines: "length (knowledge (mark_mines cs st)) = length (knowledge st)"
  by (simp add: mark_mines_def fold_mark_mine)

lemma length_mark_safes: "length (knowledge (mark_safes cs st)) = length (knowledge st)"
  by (simp add: mark_safes_def fold_mark_safe)

lemma length_update_mines:
  "length (knowledge (update_mines i st)) = length (knowledge st)"
  by (simp add: update_mines_def length_mark_mines split: option.splits)

lemma length_update_safes:
  "length (knowledge (update_safes i st)) = length (knowledge st)"
  by (simp add: update_safes_def Let_def length_mark_safes)

lemma length_update_sentence:
  "length (knowledge (update_sentence i st)) = length (knowledge st)"
  by (simp add: update_sentence_def length_update_mines length_update_safes)

lemma fold_update_sentence_invariant:
  assumes "P st" and "\<forall>i \<in> set js. i < length (knowledge st)"
    and step: "\<And>st i. P st \<Longrightarrow> i < length (knowledge st) \<Longrightarrow> P (update_sentence i st)"
  shows "P (fold update_sentence js st)"
  using assms(1,2)
proof (induction js arbitrary: st)
  case Nil
  then show ?case by simp
next
  case (Cons j js)
  have "P (update_sentence j st)" using Cons.prems by (auto intro: step)
  moreover have "\<forall>i \<in> set js. i < length (knowledge (update_sentence j st))"
    using Cons.prems by (simp add: length_update_sentence)
  ultimately show ?case using Cons.IH by simp
qed

lemma update_knowledge_invariant:
  assumes "P st"
    and "\<And>st i. P st \<Longrightarrow> i < length (knowledge st) \<Longrightarrow> P (update_sentence i st)"
  shows "P (update_knowledge st)"
  unfolding update_knowledge_def
  by (rule fold_update_sentence_invariant [where P = P]) (use assms in auto)

lemma length_update_knowledge:
  "length (knowledge (update_knowledge st)) = length (knowledge st)"
  by (rule update_knowledge_invariant [where P = "\<lambda>s. length (knowledge s) = length (knowledge st)"])
    (simp_all add: length_update_sentence)

lemma known_mines_sound:
  assumes "finite (cells s)" "count s = int (card (cells s \<inter> M))" "known_mines s = Some cs"
  shows "cs \<subseteq> M"
proof -
  from assms(3) have cs: "cs = cells s" and "int (card (cells s)) = count s"
    by (auto simp: known_mines_def split: if_splits)
  with assms(2) have "card (cells s \<inter> M) = card (cells s)" by simp
  then have "cells s \<inter> M = cells s" using assms(1) by (intro card_subset_eq) auto
  then show ?thesis using cs by auto
qed

lemma known_safes_sound:
  assumes "finite (cells s)" "count s = int (card (cells s \<inter> M))"
  shows "known_safes s \<inter> M = {}"
  using assms by (auto simp: known_safes_def split: if_splits)

lemma sound_update_mines:
  assumes "sound M st" "i < length (knowledge st)"
  shows "sound M (update_mines i st)"
proof (cases "known_mines (knowledge st ! i)")
  case None
  then show ?thesis using assms by (simp add: update_mines_def)
next
  case (Some cs)
  have "knowledge st ! i \<in> set (knowledge st)" using assms(2) by simp
  then have "cs \<subseteq> M" using known_mines_sound [OF _ _ Some] assms(1)
    unfolding sound_def by blast
  then show ?thesis using assms Some by (simp add: update_mines_def sound_mark_mines)
qed

lemma sound_update_safes:
  assumes "sound M st" "i < length (knowledge st)"
  shows "sound M (update_safes i st)"
proof -
  have "knowledge st ! i \<in> set (knowledge st)" using assms(2) by simp
  then have "known_safes (knowledge st ! i) \<inter> M = {}"
    using assms(1) known_safes_sound unfolding sound_def by blast
  then show ?thesis using assms(1) by (simp add: update_safes_def Let_def sound_mark_safes)
qed

lemma sound_update_sentence:
  assumes "sound M st" "i < length (knowledge st)"
  shows "sound M (update_sentence i st)"
  unfolding update_sentence_def using assms
  by (intro sound_update_safes sound_update_mines) (simp_all add: length_update_mines)

lemma sound_update_knowledge: "sound M st \<Longrightarrow> sound M (update_knowledge st)"
  by (rule update_knowledge_invariant [where P = "sound M"]) (auto intro: sound_update_sentence)

section \<open>The subset pass\<close>

lemma set_infer_pair:
  "set (infer_pair K A B acc) =
     set acc \<union> (if A \<noteq> B \<and> cells A \<subseteq> cells B then {derived A B} - set K else {})"
  by (auto simp: infer_pair_def derived_def Let_def)

lemma distinct_infer_pair: "distinct acc \<Longrightarrow> distinct (infer_pair K A B acc)"
  by (simp add: infer_pair_def Let_def)

lemma set_fold_infer_pair:
  "set (fold (infer_pair K A) Bs acc) =
     set acc \<union> ({derived A B | B. B \<in> set Bs \<and> A \<noteq> B \<and> cells A \<subseteq> cells B} - set K)"
proof (induction Bs arbitrary: acc)
  case Nil
  then show ?case by simp
next
  case (Cons B Bs)
  show ?case unfolding fold_simps Cons.IH set_infer_pair by (auto split: if_splits)
qed

lemma distinct_fold_infer_pair:
  "distinct acc \<Longrightarrow> distinct (fold (infer_pair K A) Bs acc)"
  by (induction Bs arbitrary: acc) (simp_all add: distinct_infer_pair)

lemma set_fold_fold_infer_pair:
  "set (fold (\<lambda>A. fold (infer_pair K A) Bs) As acc) =
     set acc \<union> ({derived A B | A B. A \<in> set As \<and> B \<in> set Bs \<and> A \<noteq> B \<and> cells A \<subseteq> cells B}
                 - set K)"
proof (induction As arbitrary: acc)
  case Nil
  then show ?case by simp
next
  case (Cons A As)
  show ?case unfolding fold_simps Cons.IH set_fold_infer_pair by auto
qed

lemma distinct_fold_fold_infer_pair:
  "distinct acc \<Longrightarrow> distinct (fold (\<lambda>A. fold (infer_pair K A) Bs) As acc)"
  by (induction As arbitrary: acc) (simp_all add: distinct_fold_infer_pair)

lemma set_inferred: "set (inferred K) = derivable K - set K"
  by (simp add: inferred_def set_fold_fold_infer_pair derivable_def)

lemma distinct_inferred: "distinct (inferred K)"
  by (simp add: inferred_def distinct_fold_fold_infer_pair)

lemma infer_new_sentences_fields:
  "mines (infer_new_sentences st) = mines st"
  "safes (infer_new_sentences st) = safes st"
  "moves_made (infer_new_sentences st) = moves_made st"
  "height (infer_new_sentences st) = height st"
  "width (infer_new_sentences st) = width st"
  "knowledge (infer_new_sentences st) = knowledge st @ inferred (knowledge st)"
  by (simp_all add: infer_new_sentences_def)

lemma derived_sound:
  assumes A: "finite (cells A)" "count A = int (card (cells A \<inter> M))"
    and B: "finite (cells B)" "count B = int (card (cells B \<inter> M))"
    and sub: "cells A \<subseteq> cells B"
  shows "finite (cells (derived A B)) \<and>
         count (derived A B) = int (card (cells (derived A B) \<inter> M))"
proof -
  have eq: "(cells B - cells A) \<inter> M = (cells B \<inter> M) - (cells A \<inter> M)" by auto
  have ss: "cells A \<inter> M \<subseteq> cells B \<inter> M" using sub by auto
  have fb: "finite (cells B \<inter> M)" using B by simp
  have fa: "finite (cells A \<inter> M)" using A by simp
  have "card ((cells B \<inter> M) - (cells A \<inter> M)) = card (cells B \<inter> M) - card (cells A \<inter> M)"
    using fa ss by (rule card_Diff_subset)
  moreover have "card (cells A \<inter> M) \<le> card (cells B \<inter> M)"
    using fb ss by (rule card_mono)
  ultimately show ?thesis using A B eq by (simp add: derived_def Sentence_def)
qed

lemma sound_infer_new_sentences:
  assumes "sound M st"
  shows "sound M (infer_new_sentences st)"
proof -
  have old: "\<forall>s \<in> set (knowledge st). finite (cells s) \<and> count s = int (card (cells s \<inter> M))"
    using assms by (simp add: sound_def)
  have "finite (cells s) \<and> count s = int (card (cells s \<inter> M))"
    if "s \<in> set (inferred (knowledge st))" for s
  proof -
    from that obtain A B where "A \<in> set (knowledge st)" "B \<in> set (knowledge st)"
      "cells A \<subseteq> cells B" "s = derived A B"
      unfolding set_inferred derivable_def by blast
    then show ?thesis using old derived_sound [of A M B] by blast
  qed
  then show ?thesis using assms old
    unfolding sound_def infer_new_sentences_fields by auto
qed

lemma cells_inferred_subset:
  assumes "s \<in> set (inferred K)"
  shows "\<exists>B \<in> set K. cells s \<subseteq> cells B"
  using assms unfolding set_inferred derivable_def derived_def Sentence_def by auto

section \<open>The new sentence of a reveal\<close>

lemma set_neighbours:
  "set (neighbours cell) =
     {c. c \<noteq> cell \<and> \<bar>fst c - fst cell\<bar> \<le> 1 \<and> \<bar>snd c - snd cell\<bar> \<le> 1}"
proof (intro set_eqI iffI)
  fix c assume "c \<in> set (neighbours cell)"
  then show "c \<in> {c. c \<noteq> cell \<and> \<bar>fst c - fst cell\<bar> \<le> 1 \<and> \<bar>snd c - snd cell\<bar> \<le> 1}"
    by (cases cell) (auto simp: neighbours_unfold)
next
  fix c assume a: "c \<in> {c. c \<noteq> cell \<and> \<bar>fst c - fst cell\<bar> \<le> 1 \<and> \<bar>snd c - snd cell\<bar> \<le> 1}"
  obtain i j where c: "c = (i, j)" by (cases c)
  obtain r k where cell: "cell = (r, k)" by (cases cell)
  from a c cell have "(i = r - 1 \<or> i = r \<or> i = r + 1) \<and> (j = k - 1 \<or> j = k \<or> j = k + 1)
      \<and> (i \<noteq> r \<or> j \<noteq> k)" by auto
  then show "c \<in> set (neighbours cell)"
    unfolding c cell neighbours_unfold by auto
qed

lemma fold_scan_neighbor:
  "fold (scan_neighbor st) xs acc =
     (fst acc + int (length (filter (\<lambda>c. c \<in> mines st) xs)),
      snd acc @ filter (\<lambda>c. in_range (height st) (width st) c
                            \<and> c \<notin> safes st \<and> c \<notin> mines st) xs)"
  by (induction xs arbitrary: acc) (simp_all add: scan_neighbor_def Let_def)

lemma add_knowledge_new_sentence_fields:
  "mines (add_knowledge_new_sentence st cell n) = mines st"
  "safes (add_knowledge_new_sentence st cell n) = insert cell (safes st)"
  "moves_made (add_knowledge_new_sentence st cell n) = insert cell (moves_made st)"
  "height (add_knowledge_new_sentence st cell n) = height st"
  "width (add_knowledge_new_sentence st cell n) = width st"
  by (simp_all add: add_knowledge_new_sentence_def Let_def mark_safe_def)

lemma knowledge_add_knowledge_new_sentence:
  "knowledge (add_knowledge_new_sentence st cell n) =
     map (\<lambda>s. Sentence_mark_safe s cell) (knowledge st) @
     [Sentence {c \<in> set (neighbours cell). in_range (height st) (width st) c
                   \<and> c \<notin> insert cell (safes st) \<and> c \<notin> mines st}
        (n - int (card {c \<in> set (neighbours cell). c \<in> mines st}))]"
  by (simp add: add_knowledge_new_sentence_def Let_def fold_scan_neighbor mark_safe_def
      length_filter_card distinct_neighbours)

lemma mines_update_knowledge_mono: "mines st \<subseteq> mines (update_knowledge st)"
  apply (rule update_knowledge_invariant [where P = "\<lambda>s. mines st \<subseteq> mines s"])
   apply simp
  apply (auto simp: update_sentence_def update_mines_def update_safes_def Let_def
      mark_mines_def mark_safes_def fold_mark_mine fold_mark_safe split: option.splits)
  done

lemma safes_update_knowledge_mono: "safes st \<subseteq> safes (update_knowledge st)"
  apply (rule update_knowledge_invariant [where P = "\<lambda>s. safes st \<subseteq> safes s"])
   apply simp
  apply (auto simp: update_sentence_def update_mines_def update_safes_def Let_def
      mark_mines_def mark_safes_def fold_mark_mine fold_mark_safe split: option.splits)
  done

lemma moves_made_update_knowledge: "moves_made (update_knowledge st) = moves_made st"
  apply (rule update_knowledge_invariant [where P = "\<lambda>s. moves_made s = moves_made st"])
   apply simp
  apply (auto simp: update_sentence_def update_mines_def update_safes_def Let_def
      mark_mines_def mark_safes_def fold_mark_mine fold_mark_safe split: option.splits)
  done

lemma height_width_update_sentence:
  "height (update_sentence i st) = height st \<and> width (update_sentence i st) = width st"
  by (auto simp: update_sentence_def update_mines_def update_safes_def Let_def
      mark_mines_def mark_safes_def fold_mark_mine fold_mark_safe split: option.splits)

lemma height_width_update_knowledge:
  "height (update_knowledge st) = height st \<and> width (update_knowledge st) = width st"
  by (rule update_knowledge_invariant
        [where P = "\<lambda>s. height s = height st \<and> width s = width st"])
     (simp_all add: height_width_update_sentence)

lemma sound_add_knowledge_new_sentence:
  assumes snd: "sound M st" and cell: "cell \<notin> M"
    and n: "n = int (card (set (neighbours cell) \<inter> M))"
    and M: "M \<subseteq> {c. in_range (height st) (width st) c}"
  shows "sound M (add_knowledge_new_sentence st cell n)"
proof -
  let ?N = "set (neighbours cell)"
  let ?U = "{c \<in> ?N. in_range (height st) (width st) c
                   \<and> c \<notin> insert cell (safes st) \<and> c \<notin> mines st}"
  let ?k = "n - int (card {c \<in> ?N. c \<in> mines st})"
  have m: "mines st \<subseteq> M" and s: "safes st \<inter> M = {}" using snd by (auto simp: sound_def)
  have old: "\<forall>s \<in> set (knowledge (mark_safe st cell)).
      finite (cells s) \<and> count s = int (card (cells s \<inter> M))"
    using sound_mark_safe [OF snd cell] by (simp add: sound_def)
  have eq: "?U \<inter> M = (?N \<inter> M) - {c \<in> ?N. c \<in> mines st}"
    using m s cell M by auto
  have sub: "{c \<in> ?N. c \<in> mines st} \<subseteq> ?N \<inter> M" using m by auto
  have fin: "finite {c \<in> ?N. c \<in> mines st}" "finite (?N \<inter> M)" by simp_all
  have "card (?U \<inter> M) = card (?N \<inter> M) - card {c \<in> ?N. c \<in> mines st}"
    unfolding eq using fin(1) sub by (rule card_Diff_subset)
  moreover have "card {c \<in> ?N. c \<in> mines st} \<le> card (?N \<inter> M)"
    using fin(2) sub by (rule card_mono)
  ultimately have new: "?k = int (card (?U \<inter> M))" using n by simp
  have "finite ?U" by simp
  with new old m s cell show ?thesis
    unfolding sound_def add_knowledge_new_sentence_fields knowledge_add_knowledge_new_sentence
    by (auto simp: Sentence_def mark_safe_fields)
qed

section \<open>Games against a board\<close>

lemma mine_cells_in_range:
  "mine_cells b \<subseteq> {c. in_range (board_height b) (board_width b) c}"
  by (auto simp: mine_cells_def is_mine_def split: if_splits)

lemma is_mine_True: "is_mine b c = Inr True \<longleftrightarrow> c \<in> mine_cells b"
  by (simp add: mine_cells_def)

lemma is_mine_False: "is_mine b c = Inr False \<Longrightarrow> c \<notin> mine_cells b"
  by (simp add: mine_cells_def)

lemma sound_add_knowledge:
  assumes "sound M st" "cell \<notin> M" "n = int (card (set (neighbours cell) \<inter> M))"
    "M \<subseteq> {c. in_range (height st) (width st) c}"
  shows "sound M (add_knowledge st cell n)"
  unfolding add_knowledge_def
  by (intro sound_infer_new_sentences sound_update_knowledge
        sound_add_knowledge_new_sentence assms)

lemma height_width_add_knowledge:
  "height (add_knowledge st cell n) = height st \<and> width (add_knowledge st cell n) = width st"
  by (simp add: add_knowledge_def infer_new_sentences_fields height_width_update_knowledge
      add_knowledge_new_sentence_fields)

lemma consistent_start:
  "mine_cells b \<subseteq> {c. in_range h w c} \<Longrightarrow> consistent b (MinesweeperAI h w)"
  by (simp add: consistent_def sound_def MinesweeperAI_def)

lemma consistent_step:
  assumes "consistent b st" "game_step b st st'"
  shows "consistent b st'"
  using assms(2)
proof cases
  case (reveal cell n)
  have "sound (mine_cells b) (add_knowledge st cell n)"
    using assms(1) reveal
    by (intro sound_add_knowledge)
      (auto simp: consistent_def is_mine_False dest: nearby_mines_card)
  then show ?thesis using assms(1) reveal
    by (simp add: consistent_def height_width_add_knowledge)
next
  case (reveal_new_sentence cell n)
  have "sound (mine_cells b) (add_knowledge_new_sentence st cell n)"
    using assms(1) reveal_new_sentence
    by (intro sound_add_knowledge_new_sentence)
      (auto simp: consistent_def is_mine_False dest: nearby_mines_card)
  then show ?thesis using assms(1) reveal_new_sentence
    by (simp add: consistent_def add_knowledge_new_sentence_fields)
next
  case (reveal_update_sentence i)
  then show ?thesis using assms(1)
    by (simp add: consistent_def height_width_update_sentence sound_update_sentence)
next
  case reveal_update
  then show ?thesis using assms(1)
    by (simp add: consistent_def height_width_update_knowledge sound_update_knowledge)
next
  case reveal_infer
  then show ?thesis using assms(1)
    by (simp add: consistent_def infer_new_sentences_fields sound_infer_new_sentences)
next
  case (flag_mine c)
  then show ?thesis using assms(1)
    by (simp add: consistent_def mark_mine_fields sound_mark_mine is_mine_True)
next
  case (flag_safe c)
  then show ?thesis using assms(1)
    by (simp add: consistent_def mark_safe_fields sound_mark_safe is_mine_False)
qed

lemma reachable_consistent: "reachable b st \<Longrightarrow> consistent b st"
  by (induction rule: reachable.induct) (auto intro: consistent_start consistent_step)

lemma mines_update_sentence_mono: "mines st \<subseteq> mines (update_sentence i st)"
  by (auto simp: update_sentence_def update_mines_def update_safes_def Let_def
      mark_mines_def mark_safes_def fold_mark_mine fold_mark_safe split: option.splits)

lemma safes_update_sentence_mono: "safes st \<subseteq> safes (update_sentence i st)"
  by (auto simp: update_sentence_def update_mines_def update_safes_def Let_def
      mark_mines_def mark_safes_def fold_mark_mine fold_mark_safe split: option.splits)

lemma sound_count_bounds:
  assumes "sound M st" "s \<in> set (knowledge st)"
  shows "0 \<le> count s \<and> count s \<le> int (card (cells s))"
proof -
  from assms have f: "finite (cells s)" and c: "count s = int (card (cells s \<inter> M))"
    by (auto simp: sound_def)
  have "card (cells s \<inter> M) \<le> card (cells s)" using f by (intro card_mono) auto
  with c show ?thesis by simp
qed

section \<open>The claims about the knowledge base\<close>

subsection \<open>Mines and safes\<close>

text \<open>
  Against C1 as stated. \<open>mark_mine\<close> and \<open>mark_safe\<close> add the cell without looking at
  the other set, so marking a cell as a mine and then as safe leaves it in both; and
  \<open>add_knowledge\<close> marks the revealed cell safe even when the agent has it as a mine
  (on a board of one row and two columns, after the reveal of \<open>(0, 0)\<close> with count 1 has
  made \<open>(0, 1)\<close> a mine, a reveal of \<open>(0, 1)\<close>).
\<close>

theorem mines_safes_disjoint_counterexample:
  "(0, 0) \<in> mines (mark_safe (mark_mine (MinesweeperAI 8 8) (0, 0)) (0, 0))
   \<and> (0, 0) \<in> safes (mark_safe (mark_mine (MinesweeperAI 8 8) (0, 0)) (0, 0))
   \<and> (0, 1) \<in> mines (add_knowledge (add_knowledge (MinesweeperAI 1 2) (0, 0) 1) (0, 1) 0)
   \<and> (0, 1) \<in> safes (add_knowledge (add_knowledge (MinesweeperAI 1 2) (0, 0) 1) (0, 1) 0)"
  by code_simp

lemma separated_mark_mine: "separated st \<Longrightarrow> c \<notin> safes st \<Longrightarrow> separated (mark_mine st c)"
  unfolding separated_def mark_mine_fields
  by (auto simp: cells_Sentence_mark_mine)

lemma separated_mark_safe: "separated st \<Longrightarrow> c \<notin> mines st \<Longrightarrow> separated (mark_safe st c)"
  unfolding separated_def mark_safe_fields
  by (auto simp: cells_Sentence_mark_safe)

lemma safes_fold_mark_mine: "safes (fold (\<lambda>c st'. mark_mine st' c) xs st) = safes st"
  by (simp add: fold_mark_mine)

lemma mines_fold_mark_safe: "mines (fold (\<lambda>c st'. mark_safe st' c) xs st) = mines st"
  by (simp add: fold_mark_safe)

lemma separated_fold_mark_mine:
  "separated st \<Longrightarrow> set xs \<inter> safes st = {} \<Longrightarrow>
   separated (fold (\<lambda>c st'. mark_mine st' c) xs st)"
proof (induction xs arbitrary: st)
  case Nil
  then show ?case by simp
next
  case (Cons x xs)
  have "separated (mark_mine st x)" using Cons.prems by (intro separated_mark_mine) auto
  moreover have "set xs \<inter> safes (mark_mine st x) = {}"
    using Cons.prems by (auto simp: mark_mine_fields)
  ultimately show ?case using Cons.IH by simp
qed

lemma separated_fold_mark_safe:
  "separated st \<Longrightarrow> set xs \<inter> mines st = {} \<Longrightarrow>
   separated (fold (\<lambda>c st'. mark_safe st' c) xs st)"
proof (induction xs arbitrary: st)
  case Nil
  then show ?case by simp
next
  case (Cons x xs)
  have "separated (mark_safe st x)" using Cons.prems by (intro separated_mark_safe) auto
  moreover have "set xs \<inter> mines (mark_safe st x) = {}"
    using Cons.prems by (auto simp: mark_safe_fields)
  ultimately show ?case using Cons.IH by simp
qed

lemma separated_mark_mines:
  "separated st \<Longrightarrow> cs \<inter> safes st = {} \<Longrightarrow> separated (mark_mines cs st)"
  unfolding mark_mines_def using set_sorted_list_of_set_subset [of cs]
  by (intro separated_fold_mark_mine) auto

lemma separated_mark_safes:
  "separated st \<Longrightarrow> cs \<inter> mines st = {} \<Longrightarrow> separated (mark_safes cs st)"
  unfolding mark_safes_def using set_sorted_list_of_set_subset [of cs]
  by (intro separated_fold_mark_safe) auto

lemma separated_update_mines:
  assumes "separated st" "i < length (knowledge st)"
  shows "separated (update_mines i st)"
proof (cases "known_mines (knowledge st ! i)")
  case None
  then show ?thesis using assms by (simp add: update_mines_def)
next
  case (Some cs)
  then have "cs = cells (knowledge st ! i)" by (auto simp: known_mines_def split: if_splits)
  moreover have "knowledge st ! i \<in> set (knowledge st)" using assms(2) by simp
  ultimately have "cs \<inter> safes st = {}" using assms(1) unfolding separated_def by blast
  then show ?thesis using assms Some by (simp add: update_mines_def separated_mark_mines)
qed

lemma separated_update_safes:
  assumes "separated st" "i < length (knowledge st)"
  shows "separated (update_safes i st)"
proof -
  have "known_safes (knowledge st ! i) \<subseteq> cells (knowledge st ! i)"
    by (simp add: known_safes_def)
  moreover have "knowledge st ! i \<in> set (knowledge st)" using assms(2) by simp
  ultimately have "known_safes (knowledge st ! i) \<inter> mines st = {}"
    using assms(1) unfolding separated_def by blast
  then show ?thesis using assms(1) by (simp add: update_safes_def Let_def separated_mark_safes)
qed

lemma separated_update_sentence:
  assumes "separated st" "i < length (knowledge st)"
  shows "separated (update_sentence i st)"
  unfolding update_sentence_def using assms
  by (intro separated_update_safes separated_update_mines) (simp_all add: length_update_mines)

lemma separated_update_knowledge: "separated st \<Longrightarrow> separated (update_knowledge st)"
  by (rule update_knowledge_invariant [where P = separated])
    (auto intro: separated_update_sentence)

lemma separated_infer_new_sentences:
  assumes "separated st"
  shows "separated (infer_new_sentences st)"
  unfolding separated_def infer_new_sentences_fields
proof
  show "mines st \<inter> safes st = {}" using assms by (simp add: separated_def)
next
  show "\<forall>s \<in> set (knowledge st @ inferred (knowledge st)).
          cells s \<inter> (mines st \<union> safes st) = {}"
  proof
    fix s assume "s \<in> set (knowledge st @ inferred (knowledge st))"
    then consider "s \<in> set (knowledge st)" | "s \<in> set (inferred (knowledge st))" by auto
    then show "cells s \<inter> (mines st \<union> safes st) = {}"
    proof cases
      case 1
      then show ?thesis using assms by (simp add: separated_def)
    next
      case 2
      then obtain B where "B \<in> set (knowledge st)" "cells s \<subseteq> cells B"
        using cells_inferred_subset by blast
      then show ?thesis using assms unfolding separated_def by blast
    qed
  qed
qed

lemma separated_add_knowledge_new_sentence:
  assumes "separated st" "cell \<notin> mines st"
  shows "separated (add_knowledge_new_sentence st cell n)"
  using assms
  unfolding separated_def add_knowledge_new_sentence_fields knowledge_add_knowledge_new_sentence
  by (auto simp: cells_Sentence_mark_safe Sentence_def)

lemma separated_add_knowledge:
  assumes "separated st" "cell \<notin> mines st"
  shows "separated (add_knowledge st cell n)"
  unfolding add_knowledge_def using assms
  by (intro separated_infer_new_sentences separated_update_knowledge
        separated_add_knowledge_new_sentence)

lemma separated_fresh: "separated (MinesweeperAI h w)"
  by (simp add: separated_def MinesweeperAI_def)

lemma separated_call_step:
  assumes "call_step st st'" "separated st"
  shows "separated st'"
  using assms
  by cases (auto intro: separated_add_knowledge separated_add_knowledge_new_sentence
      separated_update_sentence separated_update_knowledge separated_infer_new_sentences
      separated_mark_mine separated_mark_safe)

lemma separated_call_steps: "call_steps st st' \<Longrightarrow> separated st \<Longrightarrow> separated st'"
  by (induction rule: call_steps.induct) (auto intro: separated_call_step)

lemma call_step_mono:
  assumes "call_step st st'"
  shows "mines st \<subseteq> mines st' \<and> safes st \<subseteq> safes st'"
  using assms
proof cases
  case (call_add_knowledge cell n)
  have "mines st \<subseteq> mines (update_knowledge (add_knowledge_new_sentence st cell n))"
    using mines_update_knowledge_mono [of "add_knowledge_new_sentence st cell n"]
    by (simp add: add_knowledge_new_sentence_fields)
  moreover have "safes st \<subseteq> safes (update_knowledge (add_knowledge_new_sentence st cell n))"
    using safes_update_knowledge_mono [of "add_knowledge_new_sentence st cell n"]
    by (auto simp: add_knowledge_new_sentence_fields)
  ultimately show ?thesis using call_add_knowledge
    by (simp add: add_knowledge_def infer_new_sentences_fields)
next
  case (part_new_sentence cell n)
  then show ?thesis by (auto simp: add_knowledge_new_sentence_fields)
next
  case (part_update_sentence i)
  then show ?thesis by (simp add: mines_update_sentence_mono safes_update_sentence_mono)
next
  case part_update
  then show ?thesis by (simp add: mines_update_knowledge_mono safes_update_knowledge_mono)
next
  case part_infer
  then show ?thesis by (simp add: infer_new_sentences_fields)
next
  case (call_mark_mine c)
  then show ?thesis by (auto simp: mark_mine_fields)
next
  case (call_mark_safe c)
  then show ?thesis by (auto simp: mark_safe_fields)
qed

lemma call_steps_mono:
  "call_steps st st' \<Longrightarrow> mines st \<subseteq> mines st' \<and> safes st \<subseteq> safes st'"
proof (induction rule: call_steps.induct)
  case (no_call st)
  show ?case by simp
next
  case (more_calls st st' st'')
  then show ?case using call_step_mono [of st' st''] by blast
qed

text \<open>
  C1, amended. Start with a fresh \<open>MinesweeperAI\<close> of any height and width and call
  \<open>add_knowledge(cell, count)\<close> only for a cell that is not in \<open>mines\<close> (with any count),
  \<open>mark_mine(cell)\<close> only for a cell that is not in \<open>safes\<close>, and \<open>mark_safe(cell)\<close> only
  for a cell that is not in \<open>mines\<close> (\<open>make_safe_move\<close> and \<open>make_random_move\<close> change
  nothing). Then in every state that is reached, between the parts of \<open>add_knowledge\<close>
  as well, \<open>mines\<close> and \<open>safes\<close> are disjoint, and further such calls only add cells to
  the two sets: a cell in one of them stays there and never enters the other.
\<close>

theorem guarded_mines_safes_disjoint:
  assumes "call_steps (MinesweeperAI h w) st" and "call_steps st st'"
  shows "mines st \<inter> safes st = {}
         \<and> mines st \<subseteq> mines st' \<and> safes st \<subseteq> safes st'
         \<and> mines st' \<inter> safes st' = {}
         \<and> mines st \<inter> safes st' = {} \<and> safes st \<inter> mines st' = {}"
proof -
  have s: "separated st" using assms(1) separated_fresh by (rule separated_call_steps)
  have s': "separated st'" using assms(2) s by (rule separated_call_steps)
  have m: "mines st \<subseteq> mines st' \<and> safes st \<subseteq> safes st'"
    using assms(2) by (rule call_steps_mono)
  have d: "mines st \<inter> safes st = {}" "mines st' \<inter> safes st' = {}"
    using s s' by (simp_all add: separated_def)
  show ?thesis using m d by blast
qed

theorem guarded_mines_safes_disjoint_witness:
  "call_steps (MinesweeperAI 1 2) (add_knowledge (MinesweeperAI 1 2) (0, 0) 1)
   \<and> call_steps (add_knowledge (MinesweeperAI 1 2) (0, 0) 1)
       (mark_safe (add_knowledge (add_knowledge (MinesweeperAI 1 2) (0, 0) 1) (0, 0) 7) (3, 3))
   \<and> mines (add_knowledge (MinesweeperAI 1 2) (0, 0) 1) = {(0, 1)}
   \<and> safes (add_knowledge (MinesweeperAI 1 2) (0, 0) 1) = {(0, 0)}
   \<and> mines (mark_safe (add_knowledge (add_knowledge (MinesweeperAI 1 2) (0, 0) 1) (0, 0) 7) (3, 3))
       = {(0, 1)}
   \<and> safes (mark_safe (add_knowledge (add_knowledge (MinesweeperAI 1 2) (0, 0) 1) (0, 0) 7) (3, 3))
       = {(0, 0), (3, 3)}"
proof -
  let ?fresh = "MinesweeperAI 1 2"
  let ?st = "add_knowledge ?fresh (0, 0) 1"
  let ?sa = "add_knowledge ?st (0, 0) 7"
  let ?sb = "mark_safe ?sa (3, 3)"
  have m0: "mines ?fresh = {}" by (simp add: MinesweeperAI_def)
  have m: "mines ?st = {(0, 1)}" and s: "safes ?st = {(0, 0)}" by code_simp+
  have m1: "mines ?sa = {(0, 1)}" by code_simp
  have m2: "mines ?sb = {(0, 1)}" and s2: "safes ?sb = {(0, 0), (3, 3)}" by code_simp+
  have "call_step ?fresh ?st" by (rule call_step.call_add_knowledge) (simp add: m0)
  then have r: "call_steps ?fresh ?st"
    using call_steps.more_calls [OF call_steps.no_call] by blast
  have a: "call_step ?st ?sa" by (rule call_step.call_add_knowledge) (simp add: m)
  have b: "call_step ?sa ?sb" by (rule call_step.call_mark_safe) (simp add: m1)
  have g: "call_steps ?st ?sb"
    using call_steps.more_calls [OF call_steps.more_calls [OF call_steps.no_call a] b] .
  show ?thesis using guarded_mines_safes_disjoint [OF r g] r g m s m2 s2 by blast
qed

subsection \<open>Bounds of the count\<close>

text \<open>
  Against C9 as stated. \<open>add_knowledge\<close> stores the count it is given: with count 5 for
  a cell with one neighbour on the board, the new sentence has one cell and count 5. And
  the operations do not keep the bound on their own: \<open>Sentence.mark_safe\<close> removes the
  only cell of a sentence with count 1, \<open>Sentence.mark_mine\<close> takes the count of a
  sentence with count 0 below 0, and the subset pass derives \<open>{(0, 1)} = 2\<close> from
  \<open>{(0, 0), (0, 1)} = 2\<close> and \<open>{(0, 0)} = 0\<close>.
\<close>

theorem count_bounds_counterexample:
  "knowledge (add_knowledge (MinesweeperAI 1 2) (0, 0) 5) = [\<lparr>cells = {(0, 1)}, count = 5\<rparr>]
   \<and> \<not> count \<lparr>cells = {(0, 1)}, count = 5\<rparr> \<le> int (card (cells \<lparr>cells = {(0, 1)}, count = 5\<rparr>))
   \<and> count \<lparr>cells = {(0, 1)}, count = 1\<rparr> \<le> int (card (cells \<lparr>cells = {(0, 1)}, count = 1\<rparr>))
   \<and> \<not> count (Sentence_mark_safe \<lparr>cells = {(0, 1)}, count = 1\<rparr> (0, 1))
         \<le> int (card (cells (Sentence_mark_safe \<lparr>cells = {(0, 1)}, count = 1\<rparr> (0, 1))))
   \<and> count (Sentence_mark_mine \<lparr>cells = {(0, 1)}, count = 0\<rparr> (0, 1)) < 0
   \<and> inferred [\<lparr>cells = {(0, 0), (0, 1)}, count = 2\<rparr>, \<lparr>cells = {(0, 0)}, count = 0\<rparr>]
       = [\<lparr>cells = {(0, 1)}, count = 2\<rparr>]"
  by code_simp

text \<open>
  C9, amended. Take a board and a fresh \<open>MinesweeperAI\<close> whose height and width take in
  every mined cell of the board (as when they are the height and width of the board).
  Call \<open>add_knowledge\<close> only for cells of the board that hide no mine, with the count
  that \<open>nearby_mines\<close> returns for the cell, \<open>mark_mine\<close> only for cells that hide a mine
  and \<open>mark_safe\<close> only for cells of the board that hide no mine. Then in every state
  that is reached, after each part of \<open>add_knowledge\<close> and each round of its loop as
  well, every sentence of the knowledge base has a count between 0 and the number of
  its cells.
\<close>

theorem game_count_bounds:
  assumes "reachable b st"
  shows "\<forall>s \<in> set (knowledge st). 0 \<le> count s \<and> count s \<le> int (card (cells s))"
  using reachable_consistent [OF assms] sound_count_bounds unfolding consistent_def by blast

theorem game_count_bounds_witness:
  "reachable \<lparr>board_height = 3, board_width = 3,
       board = [[False, False, False], [False, True, False], [False, False, False]]\<rparr>
     (add_knowledge (add_knowledge (MinesweeperAI 3 3) (0, 0) 1) (0, 2) 1)
   \<and> knowledge (add_knowledge (add_knowledge (MinesweeperAI 3 3) (0, 0) 1) (0, 2) 1) =
       [\<lparr>cells = {(0, 1), (1, 0), (1, 1)}, count = 1\<rparr>,
        \<lparr>cells = {(0, 1), (1, 1), (1, 2)}, count = 1\<rparr>]
   \<and> 0 \<le> count \<lparr>cells = {(0, 1), (1, 0), (1, 1)}, count = 1\<rparr>
   \<and> count \<lparr>cells = {(0, 1), (1, 0), (1, 1)}, count = 1\<rparr>
       \<le> int (card (cells \<lparr>cells = {(0, 1), (1, 0), (1, 1)}, count = 1\<rparr>))"
proof -
  let ?b = "\<lparr>board_height = 3, board_width = 3,
       board = [[False, False, False], [False, True, False], [False, False, False]]\<rparr>"
  let ?sa = "add_knowledge (MinesweeperAI 3 3) (0, 0) 1"
  let ?sb = "add_knowledge ?sa (0, 2) 1"
  have "mine_cells ?b \<subseteq> {c. in_range 3 3 c}"
    using mine_cells_in_range [of ?b] by simp
  then have r0: "reachable ?b (MinesweeperAI 3 3)" by (rule reachable.start)
  have "game_step ?b (MinesweeperAI 3 3) ?sa"
    by (rule game_step.reveal)
      (simp_all add: is_mine_def nearby_mines_def in_range_def neighbours_unfold)
  then have r1: "reachable ?b ?sa" using reachable.step [OF r0] by simp
  have "game_step ?b ?sa ?sb"
    by (rule game_step.reveal)
      (simp_all add: is_mine_def nearby_mines_def in_range_def neighbours_unfold)
  then have r2: "reachable ?b ?sb" using reachable.step [OF r1] by simp
  have k: "knowledge ?sb =
       [\<lparr>cells = {(0, 1), (1, 0), (1, 1)}, count = 1\<rparr>,
        \<lparr>cells = {(0, 1), (1, 1), (1, 2)}, count = 1\<rparr>]" by code_simp
  show ?thesis using game_count_bounds [OF r2] r2 k by simp
qed

subsection \<open>The subset pass\<close>

text \<open>
  C4. One run of \<open>infer_new_sentences\<close> leaves the sentences of the knowledge base as
  they are and appends, each once, exactly the sentences
  \<open>(B.cells - A.cells, B.count - A.count)\<close> of the pairs of unequal sentences \<open>A\<close>, \<open>B\<close> of
  the knowledge base with \<open>A.cells \<subseteq> B.cells\<close> that are not equal to a sentence of the
  knowledge base. The three sets of cells do not change.
\<close>

theorem infer_new_sentences_spec:
  "knowledge (infer_new_sentences st) = knowledge st @ inferred (knowledge st)
   \<and> distinct (inferred (knowledge st))
   \<and> set (inferred (knowledge st)) =
       {Sentence (cells B - cells A) (count B - count A) | A B.
          A \<in> set (knowledge st) \<and> B \<in> set (knowledge st) \<and> A \<noteq> B \<and> cells A \<subseteq> cells B}
       - set (knowledge st)
   \<and> mines (infer_new_sentences st) = mines st
   \<and> safes (infer_new_sentences st) = safes st
   \<and> moves_made (infer_new_sentences st) = moves_made st"
  using set_inferred [of "knowledge st"]
  by (simp add: infer_new_sentences_fields distinct_inferred derivable_def derived_def)

theorem infer_new_sentences_spec_witness:
  "knowledge (infer_new_sentences
     \<lparr>height = 1, width = 3, moves_made = {}, mines = {}, safes = {},
      knowledge = [\<lparr>cells = {(0, 0), (0, 1), (0, 2)}, count = 1\<rparr>,
                   \<lparr>cells = {(0, 0), (0, 1)}, count = 1\<rparr>]\<rparr>)
   = [\<lparr>cells = {(0, 0), (0, 1), (0, 2)}, count = 1\<rparr>,
      \<lparr>cells = {(0, 0), (0, 1)}, count = 1\<rparr>,
      \<lparr>cells = {(0, 2)}, count = 0\<rparr>]
   \<and> known_safes \<lparr>cells = {(0, 2)}, count = 0\<rparr> = {(0, 2)}"
proof -
  let ?A = "\<lparr>cells = {(0, 0), (0, 1), (0, 2)}, count = 1\<rparr>"
  let ?B = "\<lparr>cells = {(0, 0), (0, 1)}, count = 1\<rparr>"
  let ?st = "\<lparr>height = 1, width = 3, moves_made = {}, mines = {}, safes = {},
              knowledge = [?A, ?B]\<rparr>"
  have "inferred [?A, ?B] = [\<lparr>cells = {(0, 2)}, count = 0\<rparr>]" by code_simp
  then show ?thesis using infer_new_sentences_spec [of ?st]
    by (simp add: known_safes_def)
qed

text \<open>
  Against C3 as stated. On a board of three rows and three columns with its one mine in
  the middle, after the reveals of \<open>(0, 0)\<close>, \<open>(0, 2)\<close> and \<open>(0, 1)\<close> (count 1 each), a run
  of the pass adds the sentence \<open>{(1, 1)} = 1\<close>, and a second run right after it adds the
  sentence \<open>{(1, 0), (1, 2)} = 0\<close>.
\<close>

theorem infer_new_sentences_twice_counterexample:
  "knowledge (infer_new_sentences
      (add_knowledge (add_knowledge (add_knowledge (MinesweeperAI 3 3) (0, 0) 1) (0, 2) 1) (0, 1) 1))
   = knowledge
      (add_knowledge (add_knowledge (add_knowledge (MinesweeperAI 3 3) (0, 0) 1) (0, 2) 1) (0, 1) 1)
     @ [\<lparr>cells = {(1, 1)}, count = 1\<rparr>]
   \<and> knowledge (infer_new_sentences (infer_new_sentences
      (add_knowledge (add_knowledge (add_knowledge (MinesweeperAI 3 3) (0, 0) 1) (0, 2) 1) (0, 1) 1)))
   = knowledge (infer_new_sentences
      (add_knowledge (add_knowledge (add_knowledge (MinesweeperAI 3 3) (0, 0) 1) (0, 2) 1) (0, 1) 1))
     @ [\<lparr>cells = {(1, 0), (1, 2)}, count = 0\<rparr>]"
  by code_simp

lemma second_pass_origin:
  assumes "s \<in> set (inferred (knowledge (infer_new_sentences st)))"
  shows "s \<notin> set (knowledge (infer_new_sentences st))
         \<and> (\<exists>A B. A \<in> set (knowledge (infer_new_sentences st))
                 \<and> B \<in> set (knowledge (infer_new_sentences st))
                 \<and> A \<noteq> B \<and> cells A \<subseteq> cells B
                 \<and> s = Sentence (cells B - cells A) (count B - count A)
                 \<and> (A \<in> set (inferred (knowledge st)) \<or> B \<in> set (inferred (knowledge st))))"
proof -
  let ?K = "knowledge st"
  let ?K' = "knowledge (infer_new_sentences st)"
  have K': "set ?K' = set ?K \<union> derivable ?K"
    by (auto simp: infer_new_sentences_fields set_inferred)
  from assms have new: "s \<notin> set ?K'" and "s \<in> derivable ?K'"
    by (simp_all add: set_inferred)
  then obtain A B where AB: "A \<in> set ?K'" "B \<in> set ?K'" "A \<noteq> B" "cells A \<subseteq> cells B"
    "s = derived A B" unfolding derivable_def by blast
  have "A \<notin> set ?K \<or> B \<notin> set ?K"
  proof (rule ccontr)
    assume "\<not> (A \<notin> set ?K \<or> B \<notin> set ?K)"
    then have "derived A B \<in> derivable ?K" using AB(3,4) unfolding derivable_def by blast
    then show False using new AB(5) K' by simp
  qed
  then have "A \<in> set (inferred ?K) \<or> B \<in> set (inferred ?K)"
    using AB(1,2) by (auto simp: infer_new_sentences_fields)
  then show ?thesis using new AB unfolding derived_def by blast
qed

text \<open>
  C3, amended. A sentence that a second run of the pass adds is not in the knowledge
  base after the first run, and it comes from a pair of sentences of which at least one
  was added by the first run: no pair of sentences that were both there before the first
  run yields anything new in the second. So a second run adds nothing when the first
  run has added nothing.
\<close>

theorem infer_new_sentences_twice:
  "(\<forall>s \<in> set (inferred (knowledge (infer_new_sentences st))).
       s \<notin> set (knowledge (infer_new_sentences st))
       \<and> (\<exists>A B. A \<in> set (knowledge (infer_new_sentences st))
               \<and> B \<in> set (knowledge (infer_new_sentences st))
               \<and> A \<noteq> B \<and> cells A \<subseteq> cells B
               \<and> s = Sentence (cells B - cells A) (count B - count A)
               \<and> (A \<in> set (inferred (knowledge st)) \<or> B \<in> set (inferred (knowledge st)))))
   \<and> (inferred (knowledge st) = [] \<longrightarrow> inferred (knowledge (infer_new_sentences st)) = [])"
proof
  show "\<forall>s \<in> set (inferred (knowledge (infer_new_sentences st))).
       s \<notin> set (knowledge (infer_new_sentences st))
       \<and> (\<exists>A B. A \<in> set (knowledge (infer_new_sentences st))
               \<and> B \<in> set (knowledge (infer_new_sentences st))
               \<and> A \<noteq> B \<and> cells A \<subseteq> cells B
               \<and> s = Sentence (cells B - cells A) (count B - count A)
               \<and> (A \<in> set (inferred (knowledge st)) \<or> B \<in> set (inferred (knowledge st))))"
    using second_pass_origin [of _ st] by blast
next
  show "inferred (knowledge st) = [] \<longrightarrow> inferred (knowledge (infer_new_sentences st)) = []"
  proof
    assume e: "inferred (knowledge st) = []"
    show "inferred (knowledge (infer_new_sentences st)) = []"
    proof (cases "inferred (knowledge (infer_new_sentences st))")
      case Nil
      then show ?thesis .
    next
      case (Cons s ss)
      then have "s \<in> set (inferred (knowledge (infer_new_sentences st)))" by simp
      then show ?thesis using second_pass_origin [of s st] e by auto
    qed
  qed
qed

theorem infer_new_sentences_twice_witness:
  "\<lparr>cells = {(1, 0), (1, 2)}, count = 0\<rparr>
     \<in> set (inferred (knowledge (infer_new_sentences
           (add_knowledge (add_knowledge (add_knowledge (MinesweeperAI 3 3)
              (0, 0) 1) (0, 2) 1) (0, 1) 1))))
   \<and> \<lparr>cells = {(1, 0), (1, 2)}, count = 0\<rparr>
     \<notin> set (knowledge (infer_new_sentences
           (add_knowledge (add_knowledge (add_knowledge (MinesweeperAI 3 3)
              (0, 0) 1) (0, 2) 1) (0, 1) 1)))
   \<and> inferred (knowledge
         (add_knowledge (add_knowledge (add_knowledge (MinesweeperAI 3 3)
              (0, 0) 1) (0, 2) 1) (0, 1) 1)) = [\<lparr>cells = {(1, 1)}, count = 1\<rparr>]
   \<and> inferred (knowledge (MinesweeperAI 3 3)) = []
   \<and> inferred (knowledge (infer_new_sentences (MinesweeperAI 3 3))) = []"
proof -
  let ?st = "add_knowledge (add_knowledge (add_knowledge (MinesweeperAI 3 3)
              (0, 0) 1) (0, 2) 1) (0, 1) 1"
  have a: "\<lparr>cells = {(1, 0), (1, 2)}, count = 0\<rparr>
             \<in> set (inferred (knowledge (infer_new_sentences ?st)))" by code_simp
  have b: "inferred (knowledge ?st) = [\<lparr>cells = {(1, 1)}, count = 1\<rparr>]" by code_simp
  have c: "inferred (knowledge (MinesweeperAI 3 3)) = []"
    by (simp add: MinesweeperAI_def inferred_def)
  show ?thesis
    using infer_new_sentences_twice [of ?st] infer_new_sentences_twice [of "MinesweeperAI 3 3"]
      a b c
    by blast
qed

subsection \<open>One pass per call\<close>

lemma untouched_mark_mine: "untouched m0 s0 st \<Longrightarrow> untouched m0 s0 (mark_mine st c)"
  unfolding untouched_def mark_mine_fields
  by (auto simp: cells_Sentence_mark_mine)

lemma untouched_mark_safe: "untouched m0 s0 st \<Longrightarrow> untouched m0 s0 (mark_safe st c)"
  unfolding untouched_def mark_safe_fields
  by (auto simp: cells_Sentence_mark_safe)

lemma untouched_mark_mines: "untouched m0 s0 st \<Longrightarrow> untouched m0 s0 (mark_mines cs st)"
proof -
  have "untouched m0 s0 st \<Longrightarrow> untouched m0 s0 (fold (\<lambda>c st'. mark_mine st' c) xs st)"
    for xs by (induction xs arbitrary: st) (auto intro: untouched_mark_mine)
  then show "untouched m0 s0 st \<Longrightarrow> untouched m0 s0 (mark_mines cs st)"
    by (simp add: mark_mines_def)
qed

lemma untouched_mark_safes: "untouched m0 s0 st \<Longrightarrow> untouched m0 s0 (mark_safes cs st)"
proof -
  have "untouched m0 s0 st \<Longrightarrow> untouched m0 s0 (fold (\<lambda>c st'. mark_safe st' c) xs st)"
    for xs by (induction xs arbitrary: st) (auto intro: untouched_mark_safe)
  then show "untouched m0 s0 st \<Longrightarrow> untouched m0 s0 (mark_safes cs st)"
    by (simp add: mark_safes_def)
qed

lemma untouched_update_sentence:
  "untouched m0 s0 st \<Longrightarrow> untouched m0 s0 (update_sentence i st)"
  by (simp add: update_sentence_def update_mines_def update_safes_def Let_def
      untouched_mark_mines untouched_mark_safes split: option.splits)

lemma untouched_update_knowledge:
  "untouched m0 s0 st \<Longrightarrow> untouched m0 s0 (update_knowledge st)"
  by (rule update_knowledge_invariant [where P = "untouched m0 s0"])
    (simp_all add: untouched_update_sentence)

lemma untouched_add_knowledge_new_sentence:
  "untouched (mines st) (safes st) (add_knowledge_new_sentence st cell n)"
  unfolding untouched_def add_knowledge_new_sentence_fields knowledge_add_knowledge_new_sentence
  by (auto simp: cells_Sentence_mark_safe Sentence_def)

lemma untouched_infer_new_sentences:
  assumes "untouched m0 s0 st"
  shows "untouched m0 s0 (infer_new_sentences st)"
  unfolding untouched_def infer_new_sentences_fields
proof
  fix s assume "s \<in> set (knowledge st @ inferred (knowledge st))"
  then consider "s \<in> set (knowledge st)" | "s \<in> set (inferred (knowledge st))" by auto
  then show "cells s \<inter> (mines st - m0) = {} \<and> cells s \<inter> (safes st - s0) = {}"
  proof cases
    case 1
    then show ?thesis using assms by (simp add: untouched_def)
  next
    case 2
    then obtain B where "B \<in> set (knowledge st)" "cells s \<subseteq> cells B"
      using cells_inferred_subset by blast
    then show ?thesis using assms unfolding untouched_def by blast
  qed
qed

lemma untouched_add_knowledge: "untouched (mines st) (safes st) (add_knowledge st cell n)"
  unfolding add_knowledge_def
  by (intro untouched_infer_new_sentences untouched_update_knowledge
        untouched_add_knowledge_new_sentence)

text \<open>
  C2. \<open>add_knowledge\<close> runs the loop over the sentences once and then the subset pass
  once; the subset pass changes neither \<open>mines\<close> nor \<open>safes\<close>. So no cell of a sentence
  that the subset pass of a call has created is added to \<open>mines\<close> or to \<open>safes\<close> by that
  call, whether the sentence is resolved or not: such a cell is in one of the sets after
  the call only if it was there before.
\<close>

theorem add_knowledge_single_pass:
  assumes "s \<in> set (inferred (knowledge (update_knowledge (add_knowledge_new_sentence st cell n))))"
    and "c \<in> cells s"
  shows "add_knowledge st cell n =
           infer_new_sentences (update_knowledge (add_knowledge_new_sentence st cell n))
         \<and> mines (add_knowledge st cell n) =
             mines (update_knowledge (add_knowledge_new_sentence st cell n))
         \<and> safes (add_knowledge st cell n) =
             safes (update_knowledge (add_knowledge_new_sentence st cell n))
         \<and> knowledge (add_knowledge st cell n) =
             knowledge (update_knowledge (add_knowledge_new_sentence st cell n))
             @ inferred (knowledge (update_knowledge (add_knowledge_new_sentence st cell n)))
         \<and> (c \<in> mines (add_knowledge st cell n) \<longrightarrow> c \<in> mines st)
         \<and> (c \<in> safes (add_knowledge st cell n) \<longrightarrow> c \<in> safes st)"
proof -
  have "s \<in> set (knowledge (add_knowledge st cell n))"
    using assms(1) by (simp add: add_knowledge_def infer_new_sentences_fields)
  then have "cells s \<inter> (mines (add_knowledge st cell n) - mines st) = {}"
    "cells s \<inter> (safes (add_knowledge st cell n) - safes st) = {}"
    using untouched_add_knowledge [of st cell n] unfolding untouched_def by blast+
  then show ?thesis using assms(2)
    by (auto simp: add_knowledge_def infer_new_sentences_fields)
qed

theorem add_knowledge_single_pass_witness:
  "\<lparr>cells = {(0, 2), (1, 2)}, count = 0\<rparr>
     \<in> set (inferred (knowledge (update_knowledge (add_knowledge_new_sentence
           (add_knowledge (MinesweeperAI 2 3) (0, 0) 1) (0, 1) 1))))
   \<and> known_safes \<lparr>cells = {(0, 2), (1, 2)}, count = 0\<rparr> = {(0, 2), (1, 2)}
   \<and> (1, 2) \<in> cells \<lparr>cells = {(0, 2), (1, 2)}, count = 0\<rparr>
   \<and> (1, 2) \<notin> safes (add_knowledge (MinesweeperAI 2 3) (0, 0) 1)
   \<and> (1, 2) \<notin> safes (add_knowledge (add_knowledge (MinesweeperAI 2 3) (0, 0) 1) (0, 1) 1)
   \<and> (1, 2) \<in> safes (add_knowledge (add_knowledge (add_knowledge (MinesweeperAI 2 3)
                          (0, 0) 1) (0, 1) 1) (0, 2) 0)"
proof -
  let ?s = "\<lparr>cells = {(0, 2), (1, 2)}, count = 0\<rparr>"
  let ?st = "add_knowledge (MinesweeperAI 2 3) (0, 0) 1"
  have a: "?s \<in> set (inferred (knowledge (update_knowledge
                 (add_knowledge_new_sentence ?st (0, 1) 1))))" by code_simp
  have b: "(1, 2) \<in> cells ?s" by simp
  have c: "(1, 2) \<notin> safes ?st" by code_simp
  have d: "known_safes ?s = {(0, 2), (1, 2)}" by (simp add: known_safes_def)
  have e: "(1, 2) \<in> safes (add_knowledge (add_knowledge ?st (0, 1) 1) (0, 2) 0)" by code_simp
  show ?thesis using add_knowledge_single_pass [OF a b] a b c d e by blast
qed

subsection \<open>The sentence of a reveal\<close>

lemma cells_fold_Sentence_mark_mine:
  "cells (fold (\<lambda>c s. Sentence_mark_mine s c) xs s) = cells s - set xs"
  by (induction xs arbitrary: s) (auto simp: cells_Sentence_mark_mine)

lemma cells_mark_mines_subset:
  "i < length (knowledge st) \<Longrightarrow>
   cells (knowledge (mark_mines cs st) ! i) \<subseteq> cells (knowledge st ! i)"
  by (auto simp: mark_mines_def fold_mark_mine cells_fold_Sentence_mark_mine)

lemma cells_mark_safes_subset:
  "i < length (knowledge st) \<Longrightarrow>
   cells (knowledge (mark_safes cs st) ! i) \<subseteq> cells (knowledge st ! i)"
  by (auto simp: mark_safes_def fold_mark_safe fold_Sentence_mark_safe)

lemma cells_update_sentence_subset:
  assumes "i < length (knowledge st)"
  shows "cells (knowledge (update_sentence j st) ! i) \<subseteq> cells (knowledge st ! i)"
proof -
  have a: "cells (knowledge (update_mines j st) ! i) \<subseteq> cells (knowledge st ! i)"
    using assms cells_mark_mines_subset [of i st]
    by (auto simp: update_mines_def split: option.splits)
  have "i < length (knowledge (update_mines j st))" using assms by (simp add: length_update_mines)
  then have "cells (knowledge (update_safes j (update_mines j st)) ! i)
        \<subseteq> cells (knowledge (update_mines j st) ! i)"
    using cells_mark_safes_subset [of i "update_mines j st"]
    by (auto simp: update_safes_def Let_def)
  then show ?thesis using a by (auto simp: update_sentence_def)
qed

lemma cells_update_knowledge_subset:
  assumes "i < length (knowledge st)"
  shows "cells (knowledge (update_knowledge st) ! i) \<subseteq> cells (knowledge st ! i)"
proof -
  have "length (knowledge (update_knowledge st)) = length (knowledge st)
        \<and> cells (knowledge (update_knowledge st) ! i) \<subseteq> cells (knowledge st ! i)"
  proof (rule update_knowledge_invariant
      [where P = "\<lambda>s. length (knowledge s) = length (knowledge st)
                     \<and> cells (knowledge s ! i) \<subseteq> cells (knowledge st ! i)"])
    show "length (knowledge st) = length (knowledge st)
          \<and> cells (knowledge st ! i) \<subseteq> cells (knowledge st ! i)" by simp
  next
    fix s :: ai and j
    assume a: "length (knowledge s) = length (knowledge st)
               \<and> cells (knowledge s ! i) \<subseteq> cells (knowledge st ! i)"
    then have "i < length (knowledge s)" using assms by simp
    then have "cells (knowledge (update_sentence j s) ! i) \<subseteq> cells (knowledge s ! i)"
      by (rule cells_update_sentence_subset)
    then show "length (knowledge (update_sentence j s)) = length (knowledge st)
               \<and> cells (knowledge (update_sentence j s) ! i) \<subseteq> cells (knowledge st ! i)"
      using a by (auto simp: length_update_sentence)
  qed
  then show ?thesis by simp
qed

lemma new_sentence_at_end_of_call:
  "length (knowledge st) < length (knowledge (add_knowledge st cell n))
   \<and> cells (knowledge (add_knowledge st cell n) ! length (knowledge st))
       \<subseteq> {c. c \<noteq> cell \<and> \<bar>fst c - fst cell\<bar> \<le> 1 \<and> \<bar>snd c - snd cell\<bar> \<le> 1
              \<and> in_range (height st) (width st) c
              \<and> c \<notin> insert cell (safes st) \<and> c \<notin> mines st}"
proof -
  let ?N = "add_knowledge_new_sentence st cell n"
  let ?i = "length (knowledge st)"
  have l: "length (knowledge ?N) = Suc ?i"
    by (simp add: knowledge_add_knowledge_new_sentence)
  then have i: "?i < length (knowledge ?N)" by simp
  have lu: "length (knowledge (update_knowledge ?N)) = Suc ?i"
    using l by (simp add: length_update_knowledge)
  have "knowledge ?N ! ?i =
      Sentence {c \<in> set (neighbours cell). in_range (height st) (width st) c
                   \<and> c \<notin> insert cell (safes st) \<and> c \<notin> mines st}
        (n - int (card {c \<in> set (neighbours cell). c \<in> mines st}))"
    unfolding knowledge_add_knowledge_new_sentence
    by (simp add: nth_append)
  then have "cells (knowledge ?N ! ?i) \<subseteq>
      {c. c \<noteq> cell \<and> \<bar>fst c - fst cell\<bar> \<le> 1 \<and> \<bar>snd c - snd cell\<bar> \<le> 1
              \<and> in_range (height st) (width st) c
              \<and> c \<notin> insert cell (safes st) \<and> c \<notin> mines st}"
    unfolding set_neighbours by (auto simp: Sentence_def)
  then have "cells (knowledge (update_knowledge ?N) ! ?i) \<subseteq>
      {c. c \<noteq> cell \<and> \<bar>fst c - fst cell\<bar> \<le> 1 \<and> \<bar>snd c - snd cell\<bar> \<le> 1
              \<and> in_range (height st) (width st) c
              \<and> c \<notin> insert cell (safes st) \<and> c \<notin> mines st}"
    using cells_update_knowledge_subset [OF i] by blast
  then show ?thesis using lu
    by (simp add: add_knowledge_def infer_new_sentences_fields nth_append)
qed

text \<open>
  Against C6 as stated. After \<open>add_knowledge((0, 0), 1)\<close> on a fresh agent of height 1 and
  width 2 the appended sentence, \<open>{(0, 1)} = 1\<close>, is no longer in the knowledge base: the
  loop over the sentences has marked \<open>(0, 1)\<close> as a mine and left \<open>{} = 0\<close> of it. And
  on an agent of height 2 and width 3, after \<open>add_knowledge((0, 0), 1)\<close>, the call
  \<open>add_knowledge((0, 1), 1)\<close> appends two sentences, its own and one that the subset pass
  derives.
\<close>

theorem add_knowledge_one_constraint_counterexample:
  "knowledge (add_knowledge_new_sentence (MinesweeperAI 1 2) (0, 0) 1) =
     [\<lparr>cells = {(0, 1)}, count = 1\<rparr>]
   \<and> knowledge (add_knowledge (MinesweeperAI 1 2) (0, 0) 1) = [\<lparr>cells = {}, count = 0\<rparr>]
   \<and> mines (add_knowledge (MinesweeperAI 1 2) (0, 0) 1) = {(0, 1)}
   \<and> knowledge (add_knowledge (MinesweeperAI 2 3) (0, 0) 1) =
       [\<lparr>cells = {(0, 1), (1, 0), (1, 1)}, count = 1\<rparr>]
   \<and> knowledge (add_knowledge (add_knowledge (MinesweeperAI 2 3) (0, 0) 1) (0, 1) 1) =
       [\<lparr>cells = {(1, 0), (1, 1)}, count = 1\<rparr>,
        \<lparr>cells = {(0, 2), (1, 0), (1, 1), (1, 2)}, count = 1\<rparr>,
        \<lparr>cells = {(0, 2), (1, 2)}, count = 0\<rparr>]"
  by code_simp

text \<open>
  C6, amended. \<open>add_knowledge(cell, count)\<close> first adds the cell to \<open>moves_made\<close>, marks it
  safe and appends exactly one sentence; only then does it run its loop over the
  sentences and the subset pass. The cells of the appended sentence are precisely the
  cells next to \<open>cell\<close>, in a row and a column at most one away, that are inside the
  height and width of the agent and at the scan (after \<open>cell\<close> was marked safe) neither
  in \<open>safes\<close> nor in \<open>mines\<close>, and its count is the given one minus the number of cells
  next to \<open>cell\<close> that are in \<open>mines\<close>; \<open>mines\<close> is unchanged up to there. At the end of
  the call the cell is in \<open>moves_made\<close> and \<open>safes\<close>, and the sentence stands in the
  knowledge base right after the sentences that were there before the call, with a
  subset of those cells: the loop may have taken cells from it, and sentences of the
  subset pass may follow it.
\<close>

theorem add_knowledge_new_sentence_spec:
  "cell \<in> moves_made (add_knowledge st cell n) \<and> cell \<in> safes (add_knowledge st cell n)
   \<and> add_knowledge st cell n =
       infer_new_sentences (update_knowledge (add_knowledge_new_sentence st cell n))
   \<and> moves_made (add_knowledge_new_sentence st cell n) = insert cell (moves_made st)
   \<and> safes (add_knowledge_new_sentence st cell n) = insert cell (safes st)
   \<and> mines (add_knowledge_new_sentence st cell n) = mines st
   \<and> knowledge (add_knowledge_new_sentence st cell n) =
       knowledge (mark_safe st cell) @
       [\<lparr>cells = {c. c \<noteq> cell \<and> \<bar>fst c - fst cell\<bar> \<le> 1 \<and> \<bar>snd c - snd cell\<bar> \<le> 1
                    \<and> in_range (height st) (width st) c
                    \<and> c \<notin> safes (mark_safe st cell) \<and> c \<notin> mines (mark_safe st cell)},
         count = n - int (card {c. c \<noteq> cell \<and> \<bar>fst c - fst cell\<bar> \<le> 1
                                  \<and> \<bar>snd c - snd cell\<bar> \<le> 1 \<and> c \<in> mines (mark_safe st cell)})\<rparr>]
   \<and> length (knowledge st) < length (knowledge (add_knowledge st cell n))
   \<and> cells (knowledge (add_knowledge st cell n) ! length (knowledge st))
       \<subseteq> {c. c \<noteq> cell \<and> \<bar>fst c - fst cell\<bar> \<le> 1 \<and> \<bar>snd c - snd cell\<bar> \<le> 1
              \<and> in_range (height st) (width st) c
              \<and> c \<notin> safes (mark_safe st cell) \<and> c \<notin> mines (mark_safe st cell)}"
proof -
  let ?N = "add_knowledge_new_sentence st cell n"
  have "cell \<in> safes ?N" by (simp add: add_knowledge_new_sentence_fields)
  then have s: "cell \<in> safes (update_knowledge ?N)"
    using safes_update_knowledge_mono [of ?N] by blast
  have m: "cell \<in> moves_made (update_knowledge ?N)"
    by (simp add: moves_made_update_knowledge add_knowledge_new_sentence_fields)
  have e1: "{c \<in> set (neighbours cell). in_range (height st) (width st) c
                   \<and> c \<notin> insert cell (safes st) \<and> c \<notin> mines st}
        = {c. c \<noteq> cell \<and> \<bar>fst c - fst cell\<bar> \<le> 1 \<and> \<bar>snd c - snd cell\<bar> \<le> 1
                    \<and> in_range (height st) (width st) c
                    \<and> c \<notin> insert cell (safes st) \<and> c \<notin> mines st}"
    unfolding set_neighbours by blast
  have e2: "{c \<in> set (neighbours cell). c \<in> mines st}
        = {c. c \<noteq> cell \<and> \<bar>fst c - fst cell\<bar> \<le> 1 \<and> \<bar>snd c - snd cell\<bar> \<le> 1 \<and> c \<in> mines st}"
    unfolding set_neighbours by blast
  have k: "knowledge ?N =
       map (\<lambda>s. Sentence_mark_safe s cell) (knowledge st) @
       [\<lparr>cells = {c. c \<noteq> cell \<and> \<bar>fst c - fst cell\<bar> \<le> 1 \<and> \<bar>snd c - snd cell\<bar> \<le> 1
                    \<and> in_range (height st) (width st) c
                    \<and> c \<notin> insert cell (safes st) \<and> c \<notin> mines st},
         count = n - int (card {c. c \<noteq> cell \<and> \<bar>fst c - fst cell\<bar> \<le> 1
                                  \<and> \<bar>snd c - snd cell\<bar> \<le> 1 \<and> c \<in> mines st})\<rparr>]"
    unfolding knowledge_add_knowledge_new_sentence Sentence_def e1 e2 ..
  have f: "cell \<in> moves_made (add_knowledge st cell n) \<and> cell \<in> safes (add_knowledge st cell n)"
    using s m by (simp add: add_knowledge_def infer_new_sentences_fields)
  show ?thesis
    unfolding mark_safe_fields add_knowledge_new_sentence_fields
    using f k new_sentence_at_end_of_call [of st cell n]
    by (simp only: add_knowledge_def simp_thms)
qed

theorem add_knowledge_new_sentence_spec_witness:
  "knowledge (add_knowledge_new_sentence (MinesweeperAI 3 3) (0, 0) 0) =
     [\<lparr>cells = {(0, 1), (1, 0), (1, 1)}, count = 0\<rparr>]
   \<and> knowledge (add_knowledge (MinesweeperAI 3 3) (0, 0) 0) = [\<lparr>cells = {}, count = 0\<rparr>]
   \<and> safes (add_knowledge (MinesweeperAI 3 3) (0, 0) 0) = {(0, 0), (0, 1), (1, 0), (1, 1)}
   \<and> moves_made (add_knowledge (MinesweeperAI 3 3) (0, 0) 0) = {(0, 0)}"
proof -
  let ?st = "MinesweeperAI 3 3"
  let ?U = "{c :: cell. c \<noteq> (0, 0) \<and> \<bar>fst c - fst ((0, 0) :: cell)\<bar> \<le> 1 \<and> \<bar>snd c - snd ((0, 0) :: cell)\<bar> \<le> 1
            \<and> in_range (height ?st) (width ?st) c
            \<and> c \<notin> safes (mark_safe ?st (0, 0)) \<and> c \<notin> mines (mark_safe ?st (0, 0))}"
  let ?C = "{c :: cell. c \<noteq> (0, 0) \<and> \<bar>fst c - fst ((0, 0) :: cell)\<bar> \<le> 1 \<and> \<bar>snd c - snd ((0, 0) :: cell)\<bar> \<le> 1
            \<and> c \<in> mines (mark_safe ?st (0, 0))}"
  have t: "knowledge (add_knowledge_new_sentence ?st (0, 0) 0) =
       knowledge (mark_safe ?st (0, 0)) @ [\<lparr>cells = ?U, count = 0 - int (card ?C)\<rparr>]"
    using add_knowledge_new_sentence_spec [of "(0, 0)" ?st 0] by blast
  have u: "?U = {(0, 1), (1, 0), (1, 1)}"
    by (auto simp: in_range_def MinesweeperAI_def mark_safe_def)
  have c: "?C = {}"
    by (simp add: MinesweeperAI_def mark_safe_def)
  have k: "knowledge (mark_safe ?st (0, 0)) = []"
    by (simp add: MinesweeperAI_def mark_safe_def)
  have a: "knowledge (add_knowledge_new_sentence ?st (0, 0) 0) =
     [\<lparr>cells = {(0, 1), (1, 0), (1, 1)}, count = 0\<rparr>]"
    unfolding t u c k by simp
  have b: "knowledge (add_knowledge ?st (0, 0) 0) = [\<lparr>cells = {}, count = 0\<rparr>]" by code_simp
  have s: "safes (add_knowledge ?st (0, 0) 0) = {(0, 0), (0, 1), (1, 0), (1, 1)}" by code_simp
  have d: "moves_made (add_knowledge ?st (0, 0) 0) = {(0, 0)}" by code_simp
  show ?thesis using a b s d by simp
qed

subsection \<open>The choice of a move\<close>

lemma set_random_moves:
  "set (random_moves st) =
     {c. in_range (height st) (width st) c \<and> c \<notin> moves_made st \<and> c \<notin> mines st}"
  by (auto simp: random_moves_def in_range_def)

lemma make_safe_move_Some:
  "make_safe_move order st = Some c \<Longrightarrow> c \<in> set order \<and> c \<notin> moves_made st"
  by (auto simp: make_safe_move_def find_Some_iff)

lemma make_safe_move_None:
  "make_safe_move order st = None \<longleftrightarrow> set order \<subseteq> moves_made st"
  by (auto simp: make_safe_move_def find_None_iff)

lemma make_random_move_Some:
  assumes "make_random_move r st = Some c"
  shows "c \<in> set (random_moves st)"
proof -
  from assms have ne: "random_moves st \<noteq> []"
    and c: "c = random_moves st ! (r mod length (random_moves st))"
    by (auto simp: make_random_move_def Let_def split: if_splits)
  then have "r mod length (random_moves st) < length (random_moves st)" by simp
  then show ?thesis unfolding c by (rule nth_mem)
qed

lemma make_random_move_None:
  "make_random_move r st = None \<longleftrightarrow> set (random_moves st) = {}"
  by (simp add: make_random_move_def Let_def)

text \<open>
  C8. For every order in which the loop of \<open>make_safe_move\<close> may visit \<open>safes\<close>: a cell
  it returns is in \<open>safes\<close> and not in \<open>moves_made\<close>, and it returns \<open>None\<close> exactly when
  \<open>safes \<subseteq> moves_made\<close>. Then (and in every other state) a cell that \<open>make_random_move\<close>
  returns is on the board and neither in \<open>moves_made\<close> nor in \<open>mines\<close>, whatever the
  generator draws, and it returns \<open>None\<close> exactly when every cell of the board is in
  \<open>moves_made\<close> or in \<open>mines\<close>.
\<close>

theorem make_move_spec:
  assumes "set order = safes st"
  shows "(\<forall>c. make_safe_move order st = Some c \<longrightarrow> c \<in> safes st \<and> c \<notin> moves_made st)
         \<and> (make_safe_move order st = None \<longleftrightarrow> safes st \<subseteq> moves_made st)
         \<and> (make_safe_move order st = None \<longrightarrow>
              (\<forall>c. make_random_move r st = Some c \<longrightarrow>
                 in_range (height st) (width st) c \<and> c \<notin> moves_made st \<and> c \<notin> mines st)
              \<and> (make_random_move r st = None \<longleftrightarrow>
                   (\<forall>c. in_range (height st) (width st) c \<longrightarrow> c \<in> moves_made st \<union> mines st)))"
proof -
  have a: "\<forall>c. make_safe_move order st = Some c \<longrightarrow> c \<in> safes st \<and> c \<notin> moves_made st"
    using make_safe_move_Some [of order st] assms by auto
  have b: "make_safe_move order st = None \<longleftrightarrow> safes st \<subseteq> moves_made st"
    using make_safe_move_None [of order st] assms by simp
  have c: "\<forall>c. make_random_move r st = Some c \<longrightarrow>
      in_range (height st) (width st) c \<and> c \<notin> moves_made st \<and> c \<notin> mines st"
    using make_random_move_Some [of r st] by (auto simp: set_random_moves)
  have d: "make_random_move r st = None \<longleftrightarrow>
      (\<forall>c. in_range (height st) (width st) c \<longrightarrow> c \<in> moves_made st \<union> mines st)"
    unfolding make_random_move_None set_random_moves by auto
  show ?thesis using a b c d by blast
qed

theorem make_move_spec_witness:
  "set [(0, 0), (0, 1), (1, 0), (1, 1)] = safes (add_knowledge (MinesweeperAI 3 3) (0, 0) 0)
   \<and> make_safe_move [(0, 0), (0, 1), (1, 0), (1, 1)]
         (add_knowledge (MinesweeperAI 3 3) (0, 0) 0) = Some (0, 1)
   \<and> (0, 1) \<in> safes (add_knowledge (MinesweeperAI 3 3) (0, 0) 0)
   \<and> (0, 1) \<notin> moves_made (add_knowledge (MinesweeperAI 3 3) (0, 0) 0)
   \<and> set [(0, 0)] = safes (add_knowledge (MinesweeperAI 1 3) (0, 0) 1)
   \<and> make_safe_move [(0, 0)] (add_knowledge (MinesweeperAI 1 3) (0, 0) 1) = None
   \<and> safes (add_knowledge (MinesweeperAI 1 3) (0, 0) 1)
       \<subseteq> moves_made (add_knowledge (MinesweeperAI 1 3) (0, 0) 1)
   \<and> make_random_move 0 (add_knowledge (MinesweeperAI 1 3) (0, 0) 1) = Some (0, 2)
   \<and> in_range 1 3 (0, 2)
   \<and> (0, 2) \<notin> moves_made (add_knowledge (MinesweeperAI 1 3) (0, 0) 1)
   \<and> (0, 2) \<notin> mines (add_knowledge (MinesweeperAI 1 3) (0, 0) 1)"
proof -
  let ?A = "add_knowledge (MinesweeperAI 3 3) (0, 0) 0"
  let ?B = "add_knowledge (MinesweeperAI 1 3) (0, 0) 1"
  have a: "set [(0, 0), (0, 1), (1, 0), (1, 1)] = safes ?A" by code_simp
  have b: "make_safe_move [(0, 0), (0, 1), (1, 0), (1, 1)] ?A = Some (0, 1)" by code_simp
  have c: "set [(0, 0)] = safes ?B" by code_simp
  have d: "make_safe_move [(0, 0)] ?B = None" by code_simp
  have e: "make_random_move 0 ?B = Some (0, 2)" by code_simp
  have f: "height ?B = 1" "width ?B = 3" by code_simp+
  show ?thesis
    using make_move_spec [OF a, of 0] make_move_spec [OF c, of 0] a b c d e f
    by (metis (no_types, lifting))
qed

section \<open>Model checking\<close>

lemma set_union_Inr:
  "set_union args = Inr S \<longleftrightarrow> args \<noteq> [] \<and> S = \<Union> (set args)"
  by (auto simp: set_union_def split: list.splits)

lemma finite_symbols:
  "symbols s = Inr S \<Longrightarrow> finite S"
  "symbols_list cs = Inr ss \<Longrightarrow> \<forall>S \<in> set ss. finite S"
proof (induction s and cs arbitrary: S and ss rule: symbols_symbols_list.induct)
  case 1
  then show ?case by auto
next
  case (2 name)
  then show ?case by auto
next
  case (3 operand)
  then show ?case by simp
next
  case (4 conjuncts)
  then show ?case by (auto simp: set_union_Inr split: sum.splits)
next
  case (5 disjuncts)
  then show ?case by (auto simp: set_union_Inr split: sum.splits)
next
  case (6 antecedent consequent)
  then show ?case by (auto simp: set_union_Inr split: sum.splits)
next
  case (7 left right)
  then show ?case by (auto simp: set_union_Inr split: sum.splits)
next
  case 8
  then show ?case by simp
next
  case (9 c cs)
  then show ?case by (auto split: sum.splits)
qed



lemma evaluate_defined:
  "proper s \<Longrightarrow> symbols s = Inr S \<Longrightarrow> S \<subseteq> dom m \<Longrightarrow> \<exists>b. evaluate m s = Inr b"
  "\<forall>c \<in> set cs. proper c \<Longrightarrow> symbols_list cs = Inr ss \<Longrightarrow> \<Union> (set ss) \<subseteq> dom m \<Longrightarrow>
     (\<exists>b. evaluate_all m cs = Inr b) \<and> (\<exists>b. evaluate_any m cs = Inr b)"
proof (induction s and cs arbitrary: S and ss rule: symbols_symbols_list.induct)
  case 1
  then show ?case by simp
next
  case (2 name)
  then show ?case by auto
next
  case (3 operand)
  then obtain b where "evaluate m operand = Inr b" by force
  then show ?case by simp
next
  case (4 conjuncts)
  then obtain ss where ss: "symbols_list conjuncts = Inr ss" "S = \<Union> (set ss)"
    by (auto simp: set_union_Inr split: sum.splits)
  then show ?case using 4 by simp
next
  case (5 disjuncts)
  then obtain ss where ss: "symbols_list disjuncts = Inr ss" "S = \<Union> (set ss)"
    by (auto simp: set_union_Inr split: sum.splits)
  then show ?case using 5 by simp
next
  case (6 antecedent consequent)
  then obtain A C where AC: "symbols antecedent = Inr A" "symbols consequent = Inr C" "S = A \<union> C"
    by (auto simp: set_union_Inr split: sum.splits)
  then have "A \<subseteq> dom m" "C \<subseteq> dom m" using 6 by auto
  then obtain a c where "evaluate m antecedent = Inr a" "evaluate m consequent = Inr c"
    using 6(1) [OF _ AC(1)] 6(2) [OF AC(1) _ AC(2)] 6(3) by auto
  then show ?case by auto
next
  case (7 left right)
  then obtain L R where LR: "symbols left = Inr L" "symbols right = Inr R" "S = L \<union> R"
    by (auto simp: set_union_Inr split: sum.splits)
  then have "L \<subseteq> dom m" "R \<subseteq> dom m" using 7 by auto
  then obtain l r where "evaluate m left = Inr l" "evaluate m right = Inr r"
    using 7(1) [OF _ LR(1)] 7(2) [OF LR(1) _ LR(2)] 7(3) by auto
  then show ?case by auto
next
  case 8
  then show ?case by auto
next
  case (9 c cs)
  then obtain s ss' where s: "symbols c = Inr s" "symbols_list cs = Inr ss'" "ss = s # ss'"
    by (auto split: sum.splits)
  then have "s \<subseteq> dom m" "\<Union> (set ss') \<subseteq> dom m" using 9 by auto
  moreover have "proper c" "\<forall>c \<in> set cs. proper c" using 9 by auto
  ultimately obtain b b1 b2 where "evaluate m c = Inr b" "evaluate_all m cs = Inr b1"
    "evaluate_any m cs = Inr b2"
    using 9(1) [OF _ s(1)] 9(2) [OF s(1) _ s(2)] by blast
  then show ?case by auto
qed

lemma extends_empty: "extends m {} m' \<longleftrightarrow> m' = m"
proof
  assume a: "extends m {} m'"
  show "m' = m"
  proof
    fix x show "m' x = m x"
    proof (cases "x \<in> dom m")
      case True
      then show ?thesis using a by (simp add: extends_def)
    next
      case False
      then have "x \<notin> dom m'" using a by (simp add: extends_def)
      then show ?thesis using False by (simp add: domIff)
    qed
  qed
next
  assume "m' = m" then show "extends m {} m'" by (simp add: extends_def)
qed

lemma extends_insert:
  assumes "p \<notin> dom m"
  shows "extends m (insert p X) m' \<longleftrightarrow>
         extends (m(p \<mapsto> True)) X m' \<or> extends (m(p \<mapsto> False)) X m'"
proof
  assume a: "extends m (insert p X) m'"
  then have "p \<in> dom m'" by (auto simp: extends_def)
  then obtain v where v: "m' p = Some v" by auto
  have d: "dom m' = dom (m(p \<mapsto> v)) \<union> X" using a by (auto simp: extends_def)
  have "m' x = (m(p \<mapsto> v)) x" if "x \<in> dom (m(p \<mapsto> v))" for x
  proof (cases "x = p")
    case True
    then show ?thesis using v by simp
  next
    case False
    then have "x \<in> dom m" using that by auto
    then show ?thesis using a False by (simp add: extends_def)
  qed
  then have "extends (m(p \<mapsto> v)) X m'" using d unfolding extends_def by blast
  then show "extends (m(p \<mapsto> True)) X m' \<or> extends (m(p \<mapsto> False)) X m'"
    by (cases v) auto
next
  assume b: "extends (m(p \<mapsto> True)) X m' \<or> extends (m(p \<mapsto> False)) X m'"
  then obtain v where e: "extends (m(p \<mapsto> v)) X m'" by blast
  have d: "dom m' = dom m \<union> insert p X" using e by (auto simp: extends_def)
  have "m' x = m x" if "x \<in> dom m" for x
  proof -
    have "x \<noteq> p" using that assms by auto
    moreover have "x \<in> dom (m(p \<mapsto> v))" using that by auto
    ultimately show ?thesis using e unfolding extends_def by (metis fun_upd_other)
  qed
  then show "extends m (insert p X) m'" using d unfolding extends_def by blast
qed


lemma entails_from_Cons:
  assumes "p \<notin> dom m"
  shows "entails_from kb query m (set (p # xs)) \<longleftrightarrow>
          entails_from kb query (m(p \<mapsto> True)) (set xs)
          \<and> entails_from kb query (m(p \<mapsto> False)) (set xs)"
  unfolding entails_from_def list.set extends_insert [OF assms] by blast


lemma check_all_entails:
  assumes "proper kb" "proper query" "symbols kb = Inr ks" "symbols query = Inr qs"
  shows "distinct xs \<Longrightarrow> set xs \<inter> dom m = {} \<Longrightarrow> ks \<union> qs \<subseteq> dom m \<union> set xs \<Longrightarrow>
         check_all kb query xs m = Inr (entails_from kb query m (set xs))"
proof (induction xs arbitrary: m)
  case Nil
  then have "ks \<subseteq> dom m" "qs \<subseteq> dom m" by auto
  then obtain k q where "evaluate m kb = Inr k" "evaluate m query = Inr q"
    using evaluate_defined(1) [OF assms(1,3)] evaluate_defined(1) [OF assms(2,4)] by blast
  then show ?case by (auto simp: entails_from_def extends_empty)
next
  case (Cons p xs)
  have p: "p \<notin> dom m" using Cons.prems by auto
  have d: "distinct xs" using Cons.prems by simp
  have i: "set xs \<inter> dom (m(p \<mapsto> v)) = {}" for v using Cons.prems by auto
  have u: "ks \<union> qs \<subseteq> dom (m(p \<mapsto> v)) \<union> set xs" for v using Cons.prems by auto
  have t: "check_all kb query xs (m(p \<mapsto> True))
             = Inr (entails_from kb query (m(p \<mapsto> True)) (set xs))"
    using d i u by (rule Cons.IH)
  have f: "check_all kb query xs (m(p \<mapsto> False))
             = Inr (entails_from kb query (m(p \<mapsto> False)) (set xs))"
    using d i u by (rule Cons.IH)
  have "entails_from kb query m (set (p # xs)) \<longleftrightarrow>
          entails_from kb query (m(p \<mapsto> True)) (set xs)
          \<and> entails_from kb query (m(p \<mapsto> False)) (set xs)"
    using p by (rule entails_from_Cons)
  then show ?case by (simp add: t f)
qed



lemma check_all_any_order:
  assumes "proper kb" "proper query" "symbols kb = Inr ks" "symbols query = Inr qs"
    and "distinct xs" "set xs = ks \<union> qs"
  shows "check_all kb query xs Map.empty = model_check kb query"
proof -
  have fin: "finite (ks \<union> qs)" using assms finite_symbols(1) by blast
  have a: "check_all kb query xs Map.empty = Inr (entails_from kb query Map.empty (ks \<union> qs))"
    using check_all_entails [OF assms(1-4) assms(5), of Map.empty] assms(6) by simp
  have "check_all kb query (sorted_list_of_set (ks \<union> qs)) Map.empty
          = Inr (entails_from kb query Map.empty (set (sorted_list_of_set (ks \<union> qs))))"
    using fin by (intro check_all_entails [OF assms(1-4)]) auto
  then have "model_check kb query = Inr (entails_from kb query Map.empty (ks \<union> qs))"
    using fin assms(3,4) by (simp add: model_check_def set_union_def)
  then show ?thesis using a by simp
qed





end
